theory Spec2Isabelle
  imports Main "HOL-Library.Word"
begin

unbundle bit_operations_syntax


section \<open>Exceptions\<close>

text \<open>
  The C++ source throws \<^verbatim>\<open>std::out_of_range\<close> from the cursor moves of
  \<^verbatim>\<open>Buffer\<close> and \<^verbatim>\<open>std::runtime_error\<close> from the poller, the
  timer wheel and the event loop. Both carry the message of the source.
\<close>

datatype exn = OutOfRange string | RuntimeError string

section \<open>Buffer (server.hpp, lines 26-98)\<close>

text \<open>
  \<^verbatim>\<open>_buffer\<close> is a \<^verbatim>\<open>std::vector<char>\<close>: a list of bytes whose length is
  the capacity. The two cursors are \<^verbatim>\<open>std::size_t\<close>; they are natural numbers
  here. On every state the class can reach (\<open>read_idx \<le> write_idx \<le> size\<close>, see
  \<open>buffer_inv\<close> below) no subtraction of the source goes below zero and no addition
  leaves the range of an address, so the wrap-around of \<^verbatim>\<open>size_t\<close> never
  takes part; allocation failure in \<^verbatim>\<open>resize\<close> is not modelled.
\<close>

type_synonym byte = "8 word"

record Buffer =
  buffer :: "byte list"
  read_idx :: nat
  write_idx :: nat

text \<open>The constructor \<^verbatim>\<open>Buffer(size)\<close>: \<open>size\<close> zero bytes, both cursors at 0.\<close>

definition Buffer_ctor :: "nat \<Rightarrow> Buffer" where
  "Buffer_ctor sz = \<lparr>buffer = replicate sz 0, read_idx = 0, write_idx = 0\<rparr>"

definition FrontSize :: "Buffer \<Rightarrow> nat" where
  "FrontSize b = read_idx b"

definition BackSize :: "Buffer \<Rightarrow> nat" where
  "BackSize b = length (buffer b) - write_idx b"

definition ReadableSize :: "Buffer \<Rightarrow> nat" where
  "ReadableSize b = write_idx b - read_idx b"

definition WritableSize :: "Buffer \<Rightarrow> nat" where
  "WritableSize b = BackSize b + FrontSize b"

definition MoveReadIdx :: "Buffer \<Rightarrow> nat \<Rightarrow> exn + Buffer" where
  "MoveReadIdx b len =
     (if read_idx b + len > write_idx b then Inl (OutOfRange ''move read idx out of range'')
      else Inr (b\<lparr>read_idx := read_idx b + len\<rparr>))"

definition MoveWriteIdx :: "Buffer \<Rightarrow> nat \<Rightarrow> exn + Buffer" where
  "MoveWriteIdx b len =
     (if len > BackSize b then Inl (OutOfRange ''move write idx out of range'')
      else Inr (b\<lparr>write_idx := write_idx b + len\<rparr>))"

text \<open>
  \<^verbatim>\<open>std::copy(first, last, d_first)\<close> inside one array: the forward loop
  \<^verbatim>\<open>while (first != last) *d_first++ = *first++;\<close> on indices.
\<close>

function std_copy :: "'a list \<Rightarrow> nat \<Rightarrow> nat \<Rightarrow> nat \<Rightarrow> 'a list" where
  "std_copy xs first last_p d_first =
     (if first < last_p then
        std_copy (xs[d_first := xs ! first]) (Suc first) last_p (Suc d_first)
      else xs)"
  by pat_completeness auto
termination
  by (relation "measure (\<lambda>(xs, first, last_p, d_first). last_p - first)") auto

declare std_copy.simps [simp del]

text \<open>
  \<^verbatim>\<open>std::copy\<close> from a foreign array \<open>src\<close> into the vector at offset
  \<open>d_first\<close>: the elements at \<open>d_first, ..., d_first + |src| - 1\<close> are overwritten.
\<close>

fun copy_in :: "'a list \<Rightarrow> 'a list \<Rightarrow> nat \<Rightarrow> 'a list" where
  "copy_in [] xs d_first = xs"
| "copy_in (c # cs) xs d_first = copy_in cs (xs[d_first := c]) (Suc d_first)"

definition EnsureWritable :: "Buffer \<Rightarrow> nat \<Rightarrow> Buffer" where
  "EnsureWritable b len =
     (if len > BackSize b then
        (if len > WritableSize b then
           b\<lparr>buffer := buffer b @ replicate len 0\<rparr>
         else
           b\<lparr>buffer := std_copy (buffer b) (read_idx b) (write_idx b) 0,
              write_idx := write_idx b - FrontSize b,
              read_idx := 0\<rparr>)
      else b)"

text \<open>\<^verbatim>\<open>FindCRLF\<close>: the index of the first \<^verbatim>\<open>'\n'\<close> (byte 10) at or after \<open>p\<close>
  and before the write cursor, \<open>None\<close> for \<^verbatim>\<open>nullptr\<close>.\<close>

function FindCRLF_from :: "Buffer \<Rightarrow> nat \<Rightarrow> nat option" where
  "FindCRLF_from b p =
     (if p < write_idx b then
        (if buffer b ! p = 10 then Some p else FindCRLF_from b (Suc p))
      else None)"
  by pat_completeness auto
termination
  by (relation "measure (\<lambda>(b, p). write_idx b - p)") auto

declare FindCRLF_from.simps [simp del]

definition FindCRLF :: "Buffer \<Rightarrow> nat option" where
  "FindCRLF b = FindCRLF_from b (read_idx b)"

text \<open>
  \<^verbatim>\<open>Read(buf, len, pop)\<close> fills the caller's array: the model returns the bytes
  copied, \<open>None\<close> when the call returns without copying.
\<close>

definition Read :: "Buffer \<Rightarrow> nat \<Rightarrow> bool \<Rightarrow> exn + (byte list option \<times> Buffer)" where
  "Read b len pop =
     (if len > ReadableSize b then Inr (None, b)
      else let out = take len (drop (read_idx b) (buffer b)) in
        if pop then
          (case MoveReadIdx b len of Inl e \<Rightarrow> Inl e | Inr b' \<Rightarrow> Inr (Some out, b'))
        else Inr (Some out, b))"

definition ReadAsString :: "Buffer \<Rightarrow> nat \<Rightarrow> bool \<Rightarrow> exn + (byte list \<times> Buffer)" where
  "ReadAsString b len pop =
     (if len > ReadableSize b then Inr ([], b)
      else let str = take len (drop (read_idx b) (buffer b)) in
        if pop then
          (case MoveReadIdx b len of Inl e \<Rightarrow> Inl e | Inr b' \<Rightarrow> Inr (str, b'))
        else Inr (str, b))"

definition ReadLine :: "Buffer \<Rightarrow> bool \<Rightarrow> exn + (byte list \<times> Buffer)" where
  "ReadLine b pop =
     (case FindCRLF b of
        Some p \<Rightarrow> ReadAsString b (p - read_idx b + 1) pop
      | None \<Rightarrow> Inr ([], b))"

definition Write :: "Buffer \<Rightarrow> byte list \<Rightarrow> bool \<Rightarrow> exn + Buffer" where
  "Write b data push =
     (let b1 = EnsureWritable b (length data);
          b2 = b1\<lparr>buffer := copy_in data (buffer b1) (write_idx b1)\<rparr>
      in if push then MoveWriteIdx b2 (length data) else Inr b2)"

definition Clear :: "Buffer \<Rightarrow> Buffer" where
  "Clear b = b\<lparr>read_idx := 0, write_idx := 0\<rparr>"

text \<open>The public interface as a datatype of calls, and a run of calls on one buffer.
  A call that throws ends the run with the exception.\<close>

datatype buffer_call =
    CallRead nat bool
  | CallReadAsString nat bool
  | CallReadLine bool
  | CallWrite "byte list" bool
  | CallClear

fun call :: "Buffer \<Rightarrow> buffer_call \<Rightarrow> exn + Buffer" where
  "call b (CallRead len pop) = map_sum id snd (Read b len pop)"
| "call b (CallReadAsString len pop) = map_sum id snd (ReadAsString b len pop)"
| "call b (CallReadLine pop) = map_sum id snd (ReadLine b pop)"
| "call b (CallWrite data push) = Write b data push"
| "call b CallClear = Inr (Clear b)"

fun calls :: "Buffer \<Rightarrow> buffer_call list \<Rightarrow> exn + Buffer" where
  "calls b [] = Inr b"
| "calls b (c # cs) = (case call b c of Inl e \<Rightarrow> Inl e | Inr b' \<Rightarrow> calls b' cs)"

text \<open>The cursors' invariant and the readable region \<open>[read_idx, write_idx)\<close>.\<close>

definition buffer_inv :: "Buffer \<Rightarrow> bool" where
  "buffer_inv b \<longleftrightarrow> read_idx b \<le> write_idx b \<and> write_idx b \<le> length (buffer b)"

definition readable :: "Buffer \<Rightarrow> byte list" where
  "readable b = take (write_idx b - read_idx b) (drop (read_idx b) (buffer b))"

section \<open>System interface\<close>

text \<open>
  The results of the system calls are inputs of the model. A call that can fail is given
  as the pair \<open>(ret, errno)\<close>: the value the call returned and the value of
  \<^verbatim>\<open>errno\<close> when the caller reads it (the kernel sets it only when the call fails,
  so after a call that did not fail it is whatever an earlier call left there).
  The constants are those of the Linux headers \<^verbatim>\<open><errno.h>\<close> and
  \<^verbatim>\<open><sys/epoll.h>\<close>; the general theorems below never unfold them, so they hold
  whatever the values are, and only the concrete examples compute with them.
\<close>

type_synonym sys_result = "int \<times> int"

definition EINTR :: int where "EINTR = 4"
definition EAGAIN :: int where "EAGAIN = 11"

definition EPOLLIN :: "32 word" where "EPOLLIN = 0x001"
definition EPOLLPRI :: "32 word" where "EPOLLPRI = 0x002"
definition EPOLLOUT :: "32 word" where "EPOLLOUT = 0x004"
definition EPOLLERR :: "32 word" where "EPOLLERR = 0x008"
definition EPOLLHUP :: "32 word" where "EPOLLHUP = 0x010"
definition EPOLLRDHUP :: "32 word" where "EPOLLRDHUP = 0x2000"

text \<open>The lines written through the logger \<^verbatim>\<open>lg(level, format, ...)\<close>: the level and
  the format string.\<close>

datatype level = Warning | Error | Fatal

type_synonym logline = "level \<times> string"

text \<open>\<^verbatim>\<open>close(fd)\<close>: the model keeps the sequence of descriptors \<^verbatim>\<open>close\<close> was
  called on.\<close>

definition sys_close :: "int \<Rightarrow> int list \<Rightarrow> int list" where
  "sys_close fd closed = closed @ [fd]"

section \<open>Socket (server.hpp, lines 100-230)\<close>

record Socket =
  sockfd :: int

text \<open>\<^verbatim>\<open>Recv\<close> and \<^verbatim>\<open>Send\<close>, given the result of \<^verbatim>\<open>recv\<close> and \<^verbatim>\<open>send\<close>:
  the value returned and the log lines written.\<close>

definition Recv :: "sys_result \<Rightarrow> int \<times> logline list" where
  "Recv r =
     (case r of (ret, errno) \<Rightarrow>
        if ret = - 1 then
          (if errno = EAGAIN \<or> errno = EINTR then (0, [])
           else (ret, [(Error, ''recv failed'')]))
        else (ret, []))"

definition Send :: "sys_result \<Rightarrow> int \<times> logline list" where
  "Send r =
     (case r of (ret, errno) \<Rightarrow>
        if ret = - 1 then
          (if errno = EAGAIN \<or> errno = EINTR then (0, [])
           else (ret, [(Error, ''send failed'')]))
        else (ret, []))"

text \<open>\<^verbatim>\<open>Socket::Close\<close> and the destructor \<^verbatim>\<open>~Socket() { Close(); }\<close>.\<close>

definition Close :: "Socket \<Rightarrow> int list \<Rightarrow> Socket \<times> int list" where
  "Close sock closed =
     (if sockfd sock \<noteq> - 1 then (sock\<lparr>sockfd := - 1\<rparr>, sys_close (sockfd sock) closed)
      else (sock, closed))"

definition Socket_dtor :: "Socket \<Rightarrow> int list \<Rightarrow> int list" where
  "Socket_dtor sock closed = snd (Close sock closed)"

section \<open>Channel (server.hpp, lines 234-315)\<close>

text \<open>
  A callback is a \<^verbatim>\<open>std::function<void()>\<close>: it acts on the state \<open>'s\<close> of whatever
  it has captured and either returns (\<open>Inr\<close>, the new state) or throws (\<open>Inl\<close>, the
  exception and the state at the throw). An empty \<^verbatim>\<open>std::function\<close> is \<open>None\<close>.
  The callbacks act on \<open>'s\<close> only: they do not change the masks or the callback slots
  of the channel that is dispatching them.
\<close>

type_synonym 's outcome = "(exn \<times> 's) + 's"

type_synonym 's callback = "'s \<Rightarrow> 's outcome"

record 's Channel =
  fd :: int
  events :: "32 word"
  revents :: "32 word"
  read_cb :: "'s callback option"
  write_cb :: "'s callback option"
  error_cb :: "'s callback option"
  close_cb :: "'s callback option"
  event_cb :: "'s callback option"

definition Channel_ctor :: "int \<Rightarrow> 's Channel" where
  "Channel_ctor f =
     \<lparr>fd = f, events = 0, revents = 0, read_cb = None, write_cb = None,
      error_cb = None, close_cb = None, event_cb = None\<rparr>"

text \<open>\<^verbatim>\<open>~Channel() { close(_fd); }\<close>\<close>

definition Channel_dtor :: "'s Channel \<Rightarrow> int list \<Rightarrow> int list" where
  "Channel_dtor ch closed = sys_close (fd ch) closed"

definition SetRevents :: "32 word \<Rightarrow> 's Channel \<Rightarrow> 's Channel" where
  "SetRevents rv ch = ch\<lparr>revents := rv\<rparr>"

text \<open>Sequencing of statements: the second runs on the state the first returned, and
  not at all when the first threw. \<^verbatim>\<open>if (cb) cb();\<close> is \<open>invoke\<close>.\<close>

definition and_then :: "'s outcome \<Rightarrow> 's callback \<Rightarrow> 's outcome" where
  "and_then r f = (case r of Inl x \<Rightarrow> Inl x | Inr s \<Rightarrow> f s)"

definition invoke :: "'s callback option \<Rightarrow> 's callback" where
  "invoke cb s = (case cb of None \<Rightarrow> Inr s | Some f \<Rightarrow> f s)"

definition HandleEvent :: "'s Channel \<Rightarrow> 's callback" where
  "HandleEvent ch s =
     and_then (invoke (event_cb ch) s) (\<lambda>s1.
     and_then
       (if revents ch AND EPOLLIN \<noteq> 0 \<or> revents ch AND EPOLLPRI \<noteq> 0 \<or>
           revents ch AND EPOLLRDHUP \<noteq> 0
        then invoke (read_cb ch) s1 else Inr s1) (\<lambda>s2.
     if revents ch AND EPOLLERR \<noteq> 0 then invoke (error_cb ch) s2
     else if revents ch AND EPOLLOUT \<noteq> 0 then invoke (write_cb ch) s2
     else if revents ch AND EPOLLHUP \<noteq> 0 then invoke (close_cb ch) s2
     else Inr s2))"

text \<open>
  To observe the dispatch, a channel whose callbacks record their own name in a list:
  \<open>recording installed rv\<close> has the callback \<open>k\<close> set when \<open>installed k\<close>, and
  \<open>rv\<close> as its \<^verbatim>\<open>_revents\<close>.
\<close>

datatype cb_name = EventCb | ReadCb | WriteCb | ErrorCb | CloseCb

definition record_cb :: "cb_name \<Rightarrow> cb_name list callback" where
  "record_cb k seen = Inr (seen @ [k])"

definition slot :: "(cb_name \<Rightarrow> bool) \<Rightarrow> cb_name \<Rightarrow> cb_name list callback option" where
  "slot installed k = (if installed k then Some (record_cb k) else None)"

definition recording :: "(cb_name \<Rightarrow> bool) \<Rightarrow> 32 word \<Rightarrow> cb_name list Channel" where
  "recording installed rv =
     \<lparr>fd = 0, events = 0, revents = rv,
      read_cb = slot installed ReadCb, write_cb = slot installed WriteCb,
      error_cb = slot installed ErrorCb, close_cb = slot installed CloseCb,
      event_cb = slot installed EventCb\<rparr>"

section \<open>TimerTask and TimerWheel (server.hpp, lines 389-495)\<close>

text \<open>
  A \<^verbatim>\<open>TimerTask\<close> lives on the heap behind \<^verbatim>\<open>std::shared_ptr\<close>. The model keeps
  an explicit store: \<open>heap\<close> maps the address of every live task to its fields,
  \<open>next_addr\<close> is the address \<^verbatim>\<open>new\<close> returns next (addresses are never reused,
  as a \<^verbatim>\<open>weak_ptr\<close> never sees a later object). A strong reference is an address in
  a bucket of \<open>wheel\<close>; a weak reference is an address in \<open>taskMap\<close>, and
  \<^verbatim>\<open>lock()\<close> on it is the lookup in \<open>heap\<close>. The use count of a task is the number
  of its occurrences in the buckets (the local \<^verbatim>\<open>TaskPtr\<close> of a member function is
  gone when the function returns, and a bucket holds the task by then).

  \<^verbatim>\<open>_task\<close> is opaque (type \<open>'f\<close>): running it is recorded in \<open>fired\<close> with the
  address of the task it belongs to; the task functions do not call back into the
  wheel. \<^verbatim>\<open>_release\<close> is always the closure \<^verbatim>\<open>_addTask\<close> installs, which erases
  \<^verbatim>\<open>_id\<close> from \<^verbatim>\<open>_taskMap\<close>. \<^verbatim>\<open>_tick\<close> is a \<^verbatim>\<open>size_t\<close> and
  \<^verbatim>\<open>timeout\<close> a \<^verbatim>\<open>uint64_t\<close>: their sum wraps at \<open>2 ^ 64\<close>.
\<close>

record 'f TimerTask =
  task_id :: nat
  timeout :: nat
  task :: 'f
  canceled :: bool

record 'f TimerWheel =
  wheel :: "nat list list"
  taskMap :: "nat \<rightharpoonup> nat"
  tick :: nat
  wheelSize :: nat
  heap :: "nat \<rightharpoonup> 'f TimerTask"
  next_addr :: nat
  fired :: "(nat \<times> 'f) list"
  wheel_logged :: "logline list"

text \<open>The constructor, for a \<^verbatim>\<open>timerfd_create\<close> that succeeded.\<close>

definition TimerWheel_ctor :: "'f TimerWheel" where
  "TimerWheel_ctor =
     \<lparr>wheel = replicate 60 [], taskMap = Map.empty, tick = 0, wheelSize = 60,
      heap = Map.empty, next_addr = 0, fired = [], wheel_logged = []\<rparr>"

text \<open>\<^verbatim>\<open>~TimerTask() { if (!_canceled) _task(); _release(); }\<close>, then the storage is
  freed.\<close>

definition TimerTask_dtor :: "nat \<Rightarrow> 'f TimerWheel \<Rightarrow> 'f TimerWheel" where
  "TimerTask_dtor p w =
     (case heap w p of
        None \<Rightarrow> w
      | Some t \<Rightarrow>
          let w1 = (if \<not> canceled t then w\<lparr>fired := fired w @ [(p, task t)]\<rparr> else w);
              w2 = w1\<lparr>taskMap := (taskMap w1)(task_id t := None)\<rparr>
          in w2\<lparr>heap := (heap w2)(p := None)\<rparr>)"

text \<open>The destructor of one \<^verbatim>\<open>shared_ptr\<close> that has just left the wheel: the task
  is destroyed when no bucket holds it any more.\<close>

definition release_ref :: "nat \<Rightarrow> 'f TimerWheel \<Rightarrow> 'f TimerWheel" where
  "release_ref p w = (if p \<in> set (concat (wheel w)) then w else TimerTask_dtor p w)"

text \<open>\<^verbatim>\<open>_wheel[i].clear()\<close>: the elements of the bucket are destroyed front to back;
  \<open>ps\<close> are the elements still to go.\<close>

fun clear_bucket :: "nat \<Rightarrow> nat list \<Rightarrow> 'f TimerWheel \<Rightarrow> 'f TimerWheel" where
  "clear_bucket i [] w = w\<lparr>wheel := (wheel w)[i := []]\<rparr>"
| "clear_bucket i (p # ps) w =
     clear_bucket i ps (release_ref p (w\<lparr>wheel := (wheel w)[i := ps]\<rparr>))"

definition Tick :: "'f TimerWheel \<Rightarrow> 'f TimerWheel" where
  "Tick w =
     (let w1 = w\<lparr>tick := (tick w + 1) mod wheelSize w\<rparr>
      in clear_bucket (tick w1) (wheel w1 ! tick w1) w1)"

text \<open>\<^verbatim>\<open>OnTime\<close>, given the result of \<^verbatim>\<open>read(_timerfd, &res, sizeof(res))\<close>.\<close>

definition OnTime :: "sys_result \<Rightarrow> 'f TimerWheel \<Rightarrow> 'f TimerWheel outcome" where
  "OnTime r w =
     (case r of (n, errno) \<Rightarrow>
        if n \<noteq> 8 then
          (if errno = EAGAIN \<or> errno = EINTR then Inr w
           else Inl (RuntimeError ''read timerfd failed'',
                     w\<lparr>wheel_logged := wheel_logged w @ [(Fatal, ''read timerfd failed'')]\<rparr>))
        else Inr (Tick w))"

definition addTask :: "nat \<Rightarrow> nat \<Rightarrow> 'f \<Rightarrow> 'f TimerWheel \<Rightarrow> 'f TimerWheel" where
  "addTask i d f w =
     (let p = next_addr w;
          w1 = w\<lparr>heap := (heap w)(p \<mapsto> \<lparr>task_id = i, timeout = d, task = f, canceled = False\<rparr>),
                 next_addr := Suc p\<rparr>;
          w2 = w1\<lparr>taskMap := (taskMap w1)(i \<mapsto> p)\<rparr>;
          b = ((tick w2 + d) mod 2 ^ 64) mod wheelSize w2
      in w2\<lparr>wheel := (wheel w2)[b := wheel w2 ! b @ [p]]\<rparr>)"

definition refreshTask :: "nat \<Rightarrow> 'f TimerWheel \<Rightarrow> 'f TimerWheel" where
  "refreshTask i w =
     (case taskMap w i of
        None \<Rightarrow> w
      | Some p \<Rightarrow>
          (case heap w p of
             None \<Rightarrow> w
           | Some t \<Rightarrow>
               let b = ((tick w + timeout t) mod 2 ^ 64) mod wheelSize w
               in w\<lparr>wheel := (wheel w)[b := wheel w ! b @ [p]]\<rparr>))"

definition removeTask :: "nat \<Rightarrow> 'f TimerWheel \<Rightarrow> 'f TimerWheel" where
  "removeTask i w =
     (case taskMap w i of
        None \<Rightarrow> w
      | Some p \<Rightarrow>
          let w1 = (case heap w p of
                      None \<Rightarrow> w
                    | Some t \<Rightarrow> w\<lparr>heap := (heap w)(p \<mapsto> t\<lparr>canceled := True\<rparr>)\<rparr>)
          in w1\<lparr>taskMap := (taskMap w1)(i := None)\<rparr>)"



text \<open>
  The member functions as a datatype of calls (on the loop's thread \<^verbatim>\<open>AddTask\<close>,
  \<^verbatim>\<open>RefreshTask\<close> and \<^verbatim>\<open>RemoveTask\<close> run \<^verbatim>\<open>_addTask\<close>,
  \<^verbatim>\<open>_refreshTask\<close> and \<^verbatim>\<open>_removeTask\<close> at once), and a run of calls.
\<close>

datatype 'f wheel_call =
    CallAddTask nat nat 'f
  | CallRefreshTask nat
  | CallRemoveTask nat
  | CallTick

fun wheel_step :: "'f TimerWheel \<Rightarrow> 'f wheel_call \<Rightarrow> 'f TimerWheel" where
  "wheel_step w (CallAddTask i d f) = addTask i d f w"
| "wheel_step w (CallRefreshTask i) = refreshTask i w"
| "wheel_step w (CallRemoveTask i) = removeTask i w"
| "wheel_step w CallTick = Tick w"

definition wheel_calls :: "'f TimerWheel \<Rightarrow> 'f wheel_call list \<Rightarrow> 'f TimerWheel" where
  "wheel_calls w cs = foldl wheel_step w cs"




text \<open>
  What every wheel built by the constructor and changed by the member functions
  satisfies: 60 buckets, the cursor inside, and every address in a bucket, in the
  store or in \<open>fired\<close> already allocated.
\<close>

definition wheel_inv :: "'f TimerWheel \<Rightarrow> bool" where
  "wheel_inv w \<longleftrightarrow>
     wheelSize w = 60 \<and> length (wheel w) = 60 \<and> tick w < 60 \<and>
     list_all (list_all (\<lambda>p. p < next_addr w)) (wheel w) \<and>
     list_all (\<lambda>e. fst e < next_addr w) (fired w) \<and>
     (\<forall>p. heap w p \<noteq> None \<longrightarrow> p < next_addr w)"

text \<open>All strong references to the task at \<open>p\<close> are in bucket \<open>b\<close>, and there is one.\<close>

definition held_in :: "nat \<Rightarrow> nat \<Rightarrow> 'f TimerWheel \<Rightarrow> bool" where
  "held_in p b w \<longleftrightarrow>
     b < length (wheel w) \<and> p \<in> set (wheel w ! b) \<and>
     (\<forall>j<length (wheel w). j \<noteq> b \<longrightarrow> p \<notin> set (wheel w ! j))"

text \<open>The runs of its task function that \<open>fired\<close> records for the task at \<open>p\<close>.\<close>

definition runs_of :: "nat \<Rightarrow> 'f TimerWheel \<Rightarrow> (nat \<times> 'f) list" where
  "runs_of p w = filter (\<lambda>e. fst e = p) (fired w)"

section \<open>Poller and EventLoop (server.hpp, lines 317-387 and 497-602)\<close>

text \<open>
  The loop's state: \<open>channels\<close> is \<^verbatim>\<open>_poller._channels\<close>, \<open>pending\<close> the queue
  \<^verbatim>\<open>_pending\<close>, \<open>world\<close> the state the callbacks and tasks act on, \<open>loop_logged\<close>
  the log lines. \<open>history\<close> is an observer the source does not have: \<open>Start\<close>
  appends \<open>Handled fd\<close> where the source calls \<^verbatim>\<open>ch->HandleEvent()\<close> and
  \<open>Ran k\<close> where it calls the \<open>k\<close>-th task of the swapped queue.
\<close>

datatype loop_event = Handled int | Ran nat

record 's EventLoop =
  channels :: "int \<rightharpoonup> 's Channel"
  pending :: "'s callback list"
  world :: 's
  loop_logged :: "logline list"
  history :: "loop_event list"

text \<open>The result of \<^verbatim>\<open>epoll_wait\<close>: \<open>- 1\<close> with an \<^verbatim>\<open>errno\<close>, or the \<open>n\<close> ready
  entries \<open>(data.fd, events)\<close> of \<^verbatim>\<open>_events\<close>.\<close>

datatype epoll_result = WaitFailed int | WaitReady "(int \<times> 32 word) list"

text \<open>The loop \<^verbatim>\<open>for (int i = 0; i < n; i++)\<close> of \<^verbatim>\<open>Poller::Poll\<close>.\<close>

fun Poll_ready ::
  "(int \<times> 32 word) list \<Rightarrow> 's Channel list \<Rightarrow> 's EventLoop \<Rightarrow>
   (exn \<times> 's EventLoop) + ('s Channel list \<times> 's EventLoop)" where
  "Poll_ready [] active lp = Inr (active, lp)"
| "Poll_ready ((f, ev) # rest) active lp =
     (case channels lp f of
        None \<Rightarrow>
          Inl (RuntimeError ''channel not found'',
               lp\<lparr>loop_logged := loop_logged lp @ [(Error, ''channel not found'')]\<rparr>)
      | Some ch \<Rightarrow>
          Poll_ready rest (active @ [SetRevents ev ch])
            (lp\<lparr>channels := (channels lp)(f \<mapsto> SetRevents ev ch)\<rparr>))"

definition Poll ::
  "epoll_result \<Rightarrow> 's Channel list \<Rightarrow> 's EventLoop \<Rightarrow>
   (exn \<times> 's EventLoop) + ('s Channel list \<times> 's EventLoop)" where
  "Poll r active lp =
     (case r of
        WaitFailed errno \<Rightarrow>
          if errno = EINTR then
            Inr (active, lp\<lparr>loop_logged := loop_logged lp @ [(Warning, ''epoll wait interrupted'')]\<rparr>)
          else
            Inl (RuntimeError ''epoll wait failed'',
                 lp\<lparr>loop_logged := loop_logged lp @ [(Error, ''epoll wait failed: %s'')]\<rparr>)
      | WaitReady evs \<Rightarrow> Poll_ready evs active lp)"

text \<open>A callback or task run by the loop: it acts on \<open>world\<close>.\<close>

definition in_loop :: "'s callback \<Rightarrow> 's EventLoop \<Rightarrow> 's EventLoop outcome" where
  "in_loop f lp =
     (case f (world lp) of
        Inl (e, s) \<Rightarrow> Inl (e, lp\<lparr>world := s\<rparr>)
      | Inr s \<Rightarrow> Inr (lp\<lparr>world := s\<rparr>))"

text \<open>\<^verbatim>\<open>for (auto& ch : _active) ch->HandleEvent();\<close>\<close>

fun handle_active :: "'s Channel list \<Rightarrow> 's EventLoop \<Rightarrow> 's EventLoop outcome" where
  "handle_active [] lp = Inr lp"
| "handle_active (ch # rest) lp =
     and_then (in_loop (HandleEvent ch) (lp\<lparr>history := history lp @ [Handled (fd ch)]\<rparr>))
       (handle_active rest)"

text \<open>\<^verbatim>\<open>while (!tasks.empty()) { tasks.front()(); tasks.pop(); }\<close> on the local queue;
  \<open>k\<close> counts the tasks already popped.\<close>

fun run_tasks :: "nat \<Rightarrow> 's callback list \<Rightarrow> 's EventLoop \<Rightarrow> 's EventLoop outcome" where
  "run_tasks k [] lp = Inr lp"
| "run_tasks k (t # tasks) lp =
     and_then (in_loop t (lp\<lparr>history := history lp @ [Ran k]\<rparr>)) (run_tasks (Suc k) tasks)"

definition RunPendingTasks :: "'s EventLoop \<Rightarrow> 's EventLoop outcome" where
  "RunPendingTasks lp = run_tasks 0 (pending lp) (lp\<lparr>pending := []\<rparr>)"

definition QueueInLoop :: "'s callback \<Rightarrow> 's EventLoop \<Rightarrow> 's EventLoop" where
  "QueueInLoop cb lp = lp\<lparr>pending := pending lp @ [cb]\<rparr>"

definition Start :: "epoll_result \<Rightarrow> 's EventLoop \<Rightarrow> 's EventLoop outcome" where
  "Start r lp =
     (case Poll r [] lp of
        Inl x \<Rightarrow> Inl x
      | Inr (active, lp1) \<Rightarrow> and_then (handle_active active lp1) RunPendingTasks)"

text \<open>\<^verbatim>\<open>ReadEventfd\<close>, given the result of \<^verbatim>\<open>read(_eventfd, &res, sizeof(res))\<close>.\<close>

definition ReadEventfd :: "sys_result \<Rightarrow> 's EventLoop \<Rightarrow> 's EventLoop outcome" where
  "ReadEventfd r lp =
     (case r of (n, errno) \<Rightarrow>
        if n \<noteq> 8 then
          (if errno = EAGAIN \<or> errno = EINTR then Inr lp
           else Inl (RuntimeError ''read eventfd failed'',
                     lp\<lparr>loop_logged := loop_logged lp @ [(Fatal, ''read eventfd failed'')]\<rparr>))
        else Inr lp)"

text \<open>The state of an outcome, returned or thrown.\<close>

definition final :: "'s outcome \<Rightarrow> 's" where
  "final r = (case r of Inl (e, s) \<Rightarrow> s | Inr s \<Rightarrow> s)"

definition returned :: "'s outcome \<Rightarrow> bool" where
  "returned r = (case r of Inl x \<Rightarrow> False | Inr s \<Rightarrow> True)"

text \<open>What an outcome of the loop leaves of \<open>world\<close>, and callbacks called one after
  the other, up to the first that throws.\<close>

definition on_world :: "'s EventLoop outcome \<Rightarrow> 's outcome" where
  "on_world r = (case r of Inl (e, lp) \<Rightarrow> Inl (e, world lp) | Inr lp \<Rightarrow> Inr (world lp))"

fun in_sequence :: "'s callback list \<Rightarrow> 's callback" where
  "in_sequence [] s = Inr s"
| "in_sequence (f # fs) s = and_then (f s) (in_sequence fs)"

text \<open>
  To observe one iteration, a loop whose callbacks and tasks write what they are into
  \<open>world\<close>: the callback \<open>k\<close> of the channel of descriptor \<open>f\<close> appends
  \<open>Dispatched f k\<close>, the \<open>k\<close>-th pending task appends \<open>Executed k\<close>. In
  \<open>observing installed n seen\<close> every descriptor \<open>f\<close> has such a channel, with the
  callbacks \<open>installed f\<close> set, and \<open>n\<close> such tasks are pending. \<open>calls_of\<close> is
  the sequence of callbacks \<open>HandleEvent\<close> calls for a mask.
\<close>

datatype loop_record = Dispatched int cb_name | Executed nat

definition dispatch_cb :: "int \<Rightarrow> cb_name \<Rightarrow> loop_record list callback" where
  "dispatch_cb f k seen = Inr (seen @ [Dispatched f k])"

definition task_cb :: "nat \<Rightarrow> loop_record list callback" where
  "task_cb k seen = Inr (seen @ [Executed k])"

definition watching :: "(cb_name \<Rightarrow> bool) \<Rightarrow> int \<Rightarrow> loop_record list Channel" where
  "watching installed f =
     \<lparr>fd = f, events = 0, revents = 0,
      read_cb = (if installed ReadCb then Some (dispatch_cb f ReadCb) else None),
      write_cb = (if installed WriteCb then Some (dispatch_cb f WriteCb) else None),
      error_cb = (if installed ErrorCb then Some (dispatch_cb f ErrorCb) else None),
      close_cb = (if installed CloseCb then Some (dispatch_cb f CloseCb) else None),
      event_cb = (if installed EventCb then Some (dispatch_cb f EventCb) else None)\<rparr>"

definition observing ::
  "(int \<Rightarrow> cb_name \<Rightarrow> bool) \<Rightarrow> nat \<Rightarrow> loop_record list \<Rightarrow> loop_record list EventLoop" where
  "observing installed n seen =
     \<lparr>channels = (\<lambda>f. Some (watching (installed f) f)), pending = map task_cb [0..<n],
      world = seen, loop_logged = [], history = []\<rparr>"

definition calls_of :: "(cb_name \<Rightarrow> bool) \<Rightarrow> 32 word \<Rightarrow> cb_name list" where
  "calls_of installed rv = final (HandleEvent (recording installed rv) [])"

section \<open>Destruction order and the descriptors closed\<close>

text \<open>
  \<^verbatim>\<open>Connection\<close> declares \<^verbatim>\<open>Socket _sock\<close> before \<^verbatim>\<open>Channel _channel\<close>; members
  are destroyed in reverse order of declaration, so the channel's destructor runs first
  and the socket's second.
\<close>

definition Connection_dtor :: "Socket \<Rightarrow> 's Channel \<Rightarrow> int list \<Rightarrow> int list" where
  "Connection_dtor sock ch closed = Socket_dtor sock (Channel_dtor ch closed)"

text \<open>
  \<^verbatim>\<open>~TimerWheel() { close(_timerfd); }\<close>, then the member \<^verbatim>\<open>_timerch\<close>, a
  \<^verbatim>\<open>unique_ptr<Channel>\<close> built as \<^verbatim>\<open>new Channel(_timerfd, loop)\<close>.
\<close>

definition TimerWheel_dtor :: "int \<Rightarrow> int list \<Rightarrow> int list" where
  "TimerWheel_dtor timerfd closed =
     Channel_dtor (Channel_ctor timerfd :: unit Channel) (sys_close timerfd closed)"

text \<open>
  \<^verbatim>\<open>~EventLoop() { delete _eventch; close(_eventfd); }\<close> with \<^verbatim>\<open>_eventch\<close> built
  as \<^verbatim>\<open>new Channel(_eventfd, this)\<close>; then the members in reverse order of
  declaration: \<^verbatim>\<open>_timerWheel\<close>, and \<^verbatim>\<open>_poller\<close>, whose destructor closes
  \<^verbatim>\<open>_epollfd\<close>.
\<close>

definition EventLoop_dtor :: "int \<Rightarrow> int \<Rightarrow> int \<Rightarrow> int list \<Rightarrow> int list" where
  "EventLoop_dtor eventfd timerfd epollfd closed =
     sys_close epollfd
       (TimerWheel_dtor timerfd
          (sys_close eventfd (Channel_dtor (Channel_ctor eventfd :: unit Channel) closed)))"

section \<open>Buffer: the copies, the cursors and the readable region\<close>

lemma length_std_copy [simp]: "length (std_copy xs f l d) = length xs"
  by (induction xs f l d rule: std_copy.induct) (subst std_copy.simps, simp)

lemma nth_std_copy:
  "d \<le> f \<Longrightarrow> l \<le> length xs \<Longrightarrow> i < length xs \<Longrightarrow>
   std_copy xs f l d ! i = (if d \<le> i \<and> i < d + (l - f) then xs ! (f + (i - d)) else xs ! i)"
proof (induction xs f l d rule: std_copy.induct)
  case (1 xs f l d)
  show ?case
  proof (cases "f < l")
    case False
    then show ?thesis by (subst std_copy.simps) auto
  next
    case True
    have step: "std_copy xs f l d = std_copy (xs[d := xs ! f]) (Suc f) l (Suc d)"
      using True by (subst std_copy.simps) simp
    have ih: "std_copy (xs[d := xs ! f]) (Suc f) l (Suc d) ! i =
        (if Suc d \<le> i \<and> i < Suc d + (l - Suc f) then (xs[d := xs ! f]) ! (Suc f + (i - Suc d))
         else (xs[d := xs ! f]) ! i)"
      using "1.IH" [OF True] "1.prems" by simp
    consider "i < d" | "i = d" | "Suc d \<le> i" "i < d + (l - f)" | "d + (l - f) \<le> i"
      by linarith
    then show ?thesis
    proof cases
      case 1
      then show ?thesis using "1.prems" unfolding step ih by simp
    next
      case 2
      have "d < d + (l - f)" using True by arith
      then show ?thesis using 2 True "1.prems" unfolding step ih by auto
    next
      case 3
      have c1: "Suc d \<le> i \<and> i < Suc d + (l - Suc f)" using 3 True by arith
      have c2: "d \<le> i \<and> i < d + (l - f)" using 3 by arith
      have e: "Suc f + (i - Suc d) = f + (i - d)" using 3 by arith
      have ne: "d \<noteq> f + (i - d)" using 3 "1.prems" by arith
      have "std_copy xs f l d ! i = (xs[d := xs ! f]) ! (Suc f + (i - Suc d))"
        by (simp only: step ih c1 if_True simp_thms)
      also have "\<dots> = xs ! (f + (i - d))"
        by (simp only: e nth_list_update_neq [OF ne])
      finally show ?thesis by (simp only: c2 if_True simp_thms)
    next
      case 4
      have c1: "\<not> (Suc d \<le> i \<and> i < Suc d + (l - Suc f))" using 4 True by arith
      have c2: "\<not> (d \<le> i \<and> i < d + (l - f))" using 4 by arith
      have ne: "d \<noteq> i" using 4 True by arith
      have "std_copy xs f l d ! i = (xs[d := xs ! f]) ! i"
        by (simp only: step ih c1 if_False simp_thms)
      also have "\<dots> = xs ! i"
        by (simp only: nth_list_update_neq [OF ne])
      finally show ?thesis by (simp only: c2 if_False simp_thms)
    qed
  qed
qed

lemma std_copy_front:
  assumes "r \<le> w" "w \<le> length xs"
  shows "std_copy xs r w 0 = take (w - r) (drop r xs) @ drop (w - r) xs"
proof (rule nth_equalityI)
  show "length (std_copy xs r w 0) = length (take (w - r) (drop r xs) @ drop (w - r) xs)"
    using assms by simp
next
  fix i assume "i < length (std_copy xs r w 0)"
  then have i: "i < length xs" by simp
  show "std_copy xs r w 0 ! i = (take (w - r) (drop r xs) @ drop (w - r) xs) ! i"
    using assms i by (simp add: nth_std_copy nth_append)
qed

lemma length_copy_in [simp]: "length (copy_in cs xs d) = length xs"
  by (induction cs arbitrary: xs d) auto

lemma copy_in_eq:
  "d + length cs \<le> length xs \<Longrightarrow> copy_in cs xs d = take d xs @ cs @ drop (d + length cs) xs"
proof (induction cs arbitrary: xs d)
  case Nil
  then show ?case by simp
next
  case (Cons c cs)
  have "copy_in (c # cs) xs d = copy_in cs (xs[d := c]) (Suc d)" by simp
  also have "\<dots> = take (Suc d) (xs[d := c]) @ cs @ drop (Suc d + length cs) (xs[d := c])"
    using Cons.prems by (intro Cons.IH) simp
  also have "take (Suc d) (xs[d := c]) = take d xs @ [c]"
    using Cons.prems by (simp add: take_Suc_conv_app_nth)
  also have "drop (Suc d + length cs) (xs[d := c]) = drop (d + length (c # cs)) xs"
    by simp
  finally show ?case by simp
qed


lemma readable_upd:
  "readable (b\<lparr>buffer := xs, write_idx := w, read_idx := r\<rparr>) = take (w - r) (drop r xs)"
  by (simp add: readable_def)

lemma EnsureWritable_fits:
  "len \<le> BackSize b \<Longrightarrow> EnsureWritable b len = b"
  by (simp add: EnsureWritable_def)

lemma EnsureWritable_shift:
  assumes "buffer_inv b" "len > BackSize b" "len \<le> WritableSize b"
  shows "EnsureWritable b len =
           b\<lparr>buffer := readable b @ drop (write_idx b - read_idx b) (buffer b),
             write_idx := write_idx b - read_idx b, read_idx := 0\<rparr>"
  using assms
  by (simp add: EnsureWritable_def FrontSize_def readable_def buffer_inv_def std_copy_front)

lemma EnsureWritable_grow:
  "len > BackSize b \<Longrightarrow> len > WritableSize b \<Longrightarrow>
   EnsureWritable b len = b\<lparr>buffer := buffer b @ replicate len 0\<rparr>"
  by (simp add: EnsureWritable_def)

lemma EnsureWritable_inv:
  assumes "buffer_inv b"
  shows "buffer_inv (EnsureWritable b len)"
proof (cases "len \<le> BackSize b")
  case True
  then show ?thesis using assms by (simp add: EnsureWritable_fits)
next
  case False
  show ?thesis
  proof (cases "len \<le> WritableSize b")
    case True
    then show ?thesis
      using assms False by (simp add: EnsureWritable_shift) (auto simp: buffer_inv_def readable_def)
  next
    case False
    then show ?thesis
      using assms \<open>\<not> len \<le> BackSize b\<close> by (simp add: EnsureWritable_grow) (simp add: buffer_inv_def)
  qed
qed

lemma EnsureWritable_readable:
  assumes "buffer_inv b"
  shows "readable (EnsureWritable b len) = readable b"
proof (cases "len \<le> BackSize b")
  case True
  then show ?thesis by (simp add: EnsureWritable_fits)
next
  case False
  show ?thesis
  proof (cases "len \<le> WritableSize b")
    case True
    have l: "length (readable b) = write_idx b - read_idx b"
      using assms by (auto simp: readable_def buffer_inv_def)
    have "readable (EnsureWritable b len) =
            take (write_idx b - read_idx b)
              (readable b @ drop (write_idx b - read_idx b) (buffer b))"
      using assms False True by (simp add: EnsureWritable_shift readable_upd)
    then show ?thesis using l by simp
  next
    case False
    then show ?thesis
      using assms \<open>\<not> len \<le> BackSize b\<close>
      by (simp add: EnsureWritable_grow) (simp add: readable_def buffer_inv_def)
  qed
qed

lemma EnsureWritable_BackSize:
  assumes "buffer_inv b"
  shows "len \<le> BackSize (EnsureWritable b len)"
proof (cases "len \<le> BackSize b")
  case True
  then show ?thesis by (simp add: EnsureWritable_fits)
next
  case False
  show ?thesis
  proof (cases "len \<le> WritableSize b")
    case True
    then show ?thesis
      using assms False
      by (simp add: EnsureWritable_shift)
         (auto simp: BackSize_def WritableSize_def FrontSize_def buffer_inv_def readable_def)
  next
    case False
    then show ?thesis
      using assms \<open>\<not> len \<le> BackSize b\<close>
      by (simp add: EnsureWritable_grow) (auto simp: BackSize_def buffer_inv_def)
  qed
qed

lemma Write_result:
  assumes "buffer_inv b"
  shows "\<exists>b'. Write b data push = Inr b' \<and> buffer_inv b' \<and>
           readable b' = (if push then readable b @ data else readable b)"
proof -
  define b1 where "b1 = EnsureWritable b (length data)"
  define b2 where "b2 = b1\<lparr>buffer := copy_in data (buffer b1) (write_idx b1)\<rparr>"
  have inv1: "buffer_inv b1" and rd1: "readable b1 = readable b"
    and back1: "length data \<le> BackSize b1"
    unfolding b1_def using assms
    by (simp_all add: EnsureWritable_inv EnsureWritable_readable EnsureWritable_BackSize)
  have fit: "write_idx b1 + length data \<le> length (buffer b1)"
    using back1 inv1 by (auto simp: BackSize_def buffer_inv_def)
  have buf2: "buffer b2 = take (write_idx b1) (buffer b1) @ data @
                drop (write_idx b1 + length data) (buffer b1)"
    unfolding b2_def using fit by (simp add: copy_in_eq)
  have inv2: "buffer_inv b2" using inv1 by (simp add: b2_def buffer_inv_def)
  have w2: "write_idx b2 = write_idx b1" "read_idx b2 = read_idx b1" by (simp_all add: b2_def)
  have "readable b2 = take (write_idx b1 - read_idx b1) (drop (read_idx b1) (buffer b2))"
    by (simp add: readable_def w2)
  also have "\<dots> = take (write_idx b1 - read_idx b1) (drop (read_idx b1) (buffer b1))"
    using inv1 by (auto simp: buf2 buffer_inv_def drop_take)
  finally have rd2: "readable b2 = readable b"
    using rd1 by (simp add: readable_def)
  have W: "Write b data push = (if push then MoveWriteIdx b2 (length data) else Inr b2)"
    by (simp add: Write_def Let_def b1_def b2_def)
  show ?thesis
  proof (cases push)
    case False
    then show ?thesis using W inv2 rd2 by simp
  next
    case True
    have back2: "length data \<le> BackSize b2" using back1 by (simp add: b2_def BackSize_def)
    define b3 where "b3 = b2\<lparr>write_idx := write_idx b2 + length data\<rparr>"
    have M: "MoveWriteIdx b2 (length data) = Inr b3"
      using back2 by (simp add: MoveWriteIdx_def b3_def)
    have inv3: "buffer_inv b3"
      using inv2 fit by (simp add: b3_def buffer_inv_def b2_def)
    have "readable b3 = take (write_idx b1 + length data - read_idx b1)
                          (drop (read_idx b1) (buffer b2))"
      by (simp add: readable_def b3_def w2)
    also have "\<dots> = take (write_idx b1 - read_idx b1) (drop (read_idx b1) (buffer b1)) @ data"
      using inv1 fit by (auto simp: buf2 buffer_inv_def drop_take)
    finally have "readable b3 = readable b @ data"
      using rd1 by (simp add: readable_def)
    then show ?thesis using True W M inv3 by simp
  qed
qed


lemma Buffer_ctor_inv: "buffer_inv (Buffer_ctor sz)"
  by (simp add: Buffer_ctor_def buffer_inv_def)

lemma Read_result:
  assumes "buffer_inv b"
  shows "\<exists>out b'. Read b len pop = Inr (out, b') \<and> buffer_inv b'"
  using assms
  by (auto simp: Read_def ReadableSize_def MoveReadIdx_def buffer_inv_def Let_def)

lemma ReadAsString_result:
  assumes "buffer_inv b"
  shows "\<exists>out b'. ReadAsString b len pop = Inr (out, b') \<and> buffer_inv b'"
  using assms
  by (auto simp: ReadAsString_def ReadableSize_def MoveReadIdx_def buffer_inv_def Let_def)

lemma ReadLine_result:
  assumes "buffer_inv b"
  shows "\<exists>out b'. ReadLine b pop = Inr (out, b') \<and> buffer_inv b'"
  using assms ReadAsString_result [OF assms]
  by (auto simp: ReadLine_def split: option.splits)

lemma Clear_inv: "buffer_inv (Clear b)"
  by (simp add: Clear_def buffer_inv_def)

lemma call_result:
  assumes "buffer_inv b"
  shows "\<exists>b'. call b c = Inr b' \<and> buffer_inv b'"
proof (cases c)
  case (CallRead len pop)
  then show ?thesis using Read_result [OF assms, of len pop] by auto
next
  case (CallReadAsString len pop)
  then show ?thesis using ReadAsString_result [OF assms, of len pop] by auto
next
  case (CallReadLine pop)
  then show ?thesis using ReadLine_result [OF assms, of pop] by auto
next
  case (CallWrite data push)
  then show ?thesis using Write_result [OF assms, of data push] by auto
next
  case CallClear
  then show ?thesis by (simp add: Clear_inv)
qed

lemma calls_result:
  "buffer_inv b \<Longrightarrow> \<exists>b'. calls b cs = Inr b' \<and> buffer_inv b'"
proof (induction cs arbitrary: b)
  case Nil
  then show ?case by simp
next
  case (Cons c cs)
  from call_result [OF Cons.prems, of c]
  obtain b1 where b1: "call b c = Inr b1" "buffer_inv b1" by blast
  from Cons.IH [OF b1(2)] show ?case using b1(1) by simp
qed



section \<open>TimerWheel: clearing a bucket\<close>


lemma runs_of_update [simp]:
  "runs_of p (w\<lparr>wheel := ws\<rparr>) = runs_of p w"
  "runs_of p (w\<lparr>taskMap := m\<rparr>) = runs_of p w"
  "runs_of p (w\<lparr>heap := h\<rparr>) = runs_of p w"
  "runs_of p (w\<lparr>tick := c\<rparr>) = runs_of p w"
  "runs_of p (w\<lparr>next_addr := a\<rparr>) = runs_of p w"
  "runs_of p (w\<lparr>fired := fired w @ es\<rparr>) = runs_of p w @ filter (\<lambda>e. fst e = p) es"
  by (simp_all add: runs_of_def)

lemma TimerTask_dtor_frame [simp]:
  "wheel (TimerTask_dtor q w) = wheel w"
  "tick (TimerTask_dtor q w) = tick w"
  "wheelSize (TimerTask_dtor q w) = wheelSize w"
  "next_addr (TimerTask_dtor q w) = next_addr w"
  "wheel_logged (TimerTask_dtor q w) = wheel_logged w"
  by (simp_all add: TimerTask_dtor_def Let_def split: option.splits)



lemma TimerTask_dtor_heap_mono:
  "heap (TimerTask_dtor q w) p \<noteq> None \<Longrightarrow> heap w p \<noteq> None"
  by (auto simp: TimerTask_dtor_def Let_def split: option.splits if_splits)

lemma TimerTask_dtor_fired_fst:
  "e \<in> set (fired (TimerTask_dtor q w)) \<Longrightarrow> fst e = q \<or> e \<in> set (fired w)"
  by (auto simp: TimerTask_dtor_def Let_def split: option.splits if_splits)

lemma wheel_inv_iff:
  "wheel_inv w \<longleftrightarrow>
     wheelSize w = 60 \<and> length (wheel w) = 60 \<and> tick w < 60 \<and>
     (\<forall>j<60. \<forall>q\<in>set (wheel w ! j). q < next_addr w) \<and>
     (\<forall>e\<in>set (fired w). fst e < next_addr w) \<and>
     (\<forall>q. heap w q \<noteq> None \<longrightarrow> q < next_addr w)"
proof -
  have "list_all (list_all (\<lambda>p. p < next_addr w)) (wheel w) \<longleftrightarrow>
        (\<forall>j<length (wheel w). \<forall>q\<in>set (wheel w ! j). q < next_addr w)"
    unfolding list_all_iff by (simp add: all_set_conv_all_nth)
  then show ?thesis
    unfolding wheel_inv_def list_all_iff [of _ "fired w"] by auto
qed

lemma release_ref_frame [simp]:
  "wheel (release_ref q w) = wheel w"
  "tick (release_ref q w) = tick w"
  "wheelSize (release_ref q w) = wheelSize w"
  "next_addr (release_ref q w) = next_addr w"
  "wheel_logged (release_ref q w) = wheel_logged w"
  by (simp_all add: release_ref_def)


lemma clear_bucket_frame [simp]:
  "wheel (clear_bucket i xs w) = (wheel w)[i := []]"
  "tick (clear_bucket i xs w) = tick w"
  "wheelSize (clear_bucket i xs w) = wheelSize w"
  "next_addr (clear_bucket i xs w) = next_addr w"
  "wheel_logged (clear_bucket i xs w) = wheel_logged w"
  by (induction xs arbitrary: w; simp)+



section \<open>TimerWheel: ticks and the lifetime of a task\<close>

lemma Tick_frame [simp]:
  "wheelSize (Tick w) = wheelSize w"
  "tick (Tick w) = (tick w + 1) mod wheelSize w"
  "wheel (Tick w) = (wheel w)[(tick w + 1) mod wheelSize w := []]"
  "next_addr (Tick w) = next_addr w"
  "wheel_logged (Tick w) = wheel_logged w"
  by (simp_all add: Tick_def Let_def)






section \<open>TimerWheel: adding a task\<close>






section \<open>TimerWheel: the invariant is kept by every member function\<close>

lemma wheel_inv_ctor: "wheel_inv TimerWheel_ctor"
  by (simp add: wheel_inv_iff TimerWheel_ctor_def)

lemma clear_bucket_bounds:
  assumes "\<forall>q\<in>set xs. q < N" "\<forall>e\<in>set (fired w). fst e < N"
    and "\<forall>q. heap w q \<noteq> None \<longrightarrow> q < N"
  shows "(\<forall>e\<in>set (fired (clear_bucket i xs w)). fst e < N) \<and>
         (\<forall>q. heap (clear_bucket i xs w) q \<noteq> None \<longrightarrow> q < N)"
  using assms
proof (induction xs arbitrary: w)
  case Nil
  then show ?case by simp
next
  case (Cons q qs)
  let ?w1 = "w\<lparr>wheel := (wheel w)[i := qs]\<rparr>"
  have f: "\<forall>e\<in>set (fired (release_ref q ?w1)). fst e < N"
  proof
    fix e assume e: "e \<in> set (fired (release_ref q ?w1))"
    show "fst e < N"
    proof (cases "q \<in> set (concat (wheel ?w1))")
      case True
      then show ?thesis using e Cons.prems(2) by (simp add: release_ref_def)
    next
      case False
      then have "e \<in> set (fired (TimerTask_dtor q ?w1))"
        using e by (simp add: release_ref_def)
      from TimerTask_dtor_fired_fst [OF this] show ?thesis
        using Cons.prems(1,2) by auto
    qed
  qed
  have h: "\<forall>r. heap (release_ref q ?w1) r \<noteq> None \<longrightarrow> r < N"
    using TimerTask_dtor_heap_mono [of q ?w1] Cons.prems(3)
    by (auto simp: release_ref_def)
  have "\<forall>q\<in>set qs. q < N" using Cons.prems(1) by simp
  from Cons.IH [OF this f h] show ?case by simp
qed

lemma wheel_inv_Tick:
  assumes "wheel_inv w"
  shows "wheel_inv (Tick w)"
proof -
  let ?c = "(tick w + 1) mod wheelSize w"
  have ws: "wheelSize w = 60" "length (wheel w) = 60"
    and bk: "\<forall>j<60. \<forall>q\<in>set (wheel w ! j). q < next_addr w"
    and fr: "\<forall>e\<in>set (fired w). fst e < next_addr w"
    and hp: "\<forall>q. heap w q \<noteq> None \<longrightarrow> q < next_addr w"
    using assms by (simp_all add: wheel_inv_iff)
  have c: "?c < 60" using ws by simp
  have "(\<forall>e\<in>set (fired (Tick w)). fst e < next_addr w) \<and>
        (\<forall>q. heap (Tick w) q \<noteq> None \<longrightarrow> q < next_addr w)"
    using clear_bucket_bounds [of "wheel w ! ?c" "next_addr w" "w\<lparr>tick := ?c\<rparr>" ?c] bk c fr hp
    by (simp add: Tick_def Let_def)
  moreover have "\<forall>j<60. \<forall>q\<in>set (wheel (Tick w) ! j). q < next_addr w"
    using bk ws by (auto simp: nth_list_update)
  ultimately show ?thesis
    using ws c by (simp add: wheel_inv_iff)
qed


lemma wheel_inv_addTask:
  assumes "wheel_inv w"
  shows "wheel_inv (addTask i d f w)"
proof -
  have ws: "wheelSize w = 60" "length (wheel w) = 60" "tick w < 60"
    and bk: "\<forall>j<60. \<forall>q\<in>set (wheel w ! j). q < next_addr w"
    and fr: "\<forall>e\<in>set (fired w). fst e < next_addr w"
    and hp: "\<forall>q. heap w q \<noteq> None \<longrightarrow> q < next_addr w"
    using assms by (simp_all add: wheel_inv_iff)
  show ?thesis
    using ws bk fr hp
    by (auto simp: wheel_inv_iff addTask_def Let_def nth_list_update less_Suc_eq)
qed

lemma wheel_inv_refreshTask:
  assumes "wheel_inv w"
  shows "wheel_inv (refreshTask i w)"
proof -
  have ws: "wheelSize w = 60" "length (wheel w) = 60" "tick w < 60"
    and bk: "\<forall>j<60. \<forall>q\<in>set (wheel w ! j). q < next_addr w"
    and fr: "\<forall>e\<in>set (fired w). fst e < next_addr w"
    and hp: "\<forall>q. heap w q \<noteq> None \<longrightarrow> q < next_addr w"
    using assms by (simp_all add: wheel_inv_iff)
  show ?thesis
    using ws bk fr hp
    by (auto simp: wheel_inv_iff refreshTask_def Let_def nth_list_update split: option.splits)
qed

lemma wheel_inv_removeTask:
  assumes "wheel_inv w"
  shows "wheel_inv (removeTask i w)"
  using assms
  by (auto simp: wheel_inv_iff removeTask_def Let_def split: option.splits)

lemma wheel_inv_wheel_step: "wheel_inv w \<Longrightarrow> wheel_inv (wheel_step w c)"
  by (cases c)
    (simp_all add: wheel_inv_addTask wheel_inv_refreshTask wheel_inv_removeTask wheel_inv_Tick)

lemma wheel_inv_wheel_calls: "wheel_inv w \<Longrightarrow> wheel_inv (wheel_calls w cs)"
  unfolding wheel_calls_def
  by (induction cs arbitrary: w) (simp_all add: wheel_inv_wheel_step)

lemma wheel_inv_reachable: "wheel_inv (wheel_calls TimerWheel_ctor cs)"
  by (rule wheel_inv_wheel_calls [OF wheel_inv_ctor])

section \<open>TimerWheel: from adding a task to its destruction\<close>





section \<open>TimerWheel: a task held by another bucket survives a tick\<close>




section \<open>TimerWheel: one task through a run of member calls\<close>


lemma addTask_frame [simp]:
  "tick (addTask i d f w) = tick w"
  "wheelSize (addTask i d f w) = wheelSize w"
  "next_addr (addTask i d f w) = Suc (next_addr w)"
  "taskMap (addTask i d f w) = (taskMap w)(i \<mapsto> next_addr w)"
  "heap (addTask i d f w) =
     (heap w)(next_addr w \<mapsto> \<lparr>task_id = i, timeout = d, task = f, canceled = False\<rparr>)"
  "runs_of p (addTask i d f w) = runs_of p w"
  "length (wheel (addTask i d f w)) = length (wheel w)"
  by (simp_all add: addTask_def Let_def)

lemma refreshTask_frame [simp]:
  "tick (refreshTask i w) = tick w"
  "wheelSize (refreshTask i w) = wheelSize w"
  "next_addr (refreshTask i w) = next_addr w"
  "taskMap (refreshTask i w) = taskMap w"
  "heap (refreshTask i w) = heap w"
  "runs_of p (refreshTask i w) = runs_of p w"
  "length (wheel (refreshTask i w)) = length (wheel w)"
  by (simp_all add: refreshTask_def Let_def split: option.splits)

lemma removeTask_frame [simp]:
  "tick (removeTask i w) = tick w"
  "wheelSize (removeTask i w) = wheelSize w"
  "next_addr (removeTask i w) = next_addr w"
  "wheel (removeTask i w) = wheel w"
  "runs_of p (removeTask i w) = runs_of p w"
  by (simp_all add: removeTask_def Let_def split: option.splits)









lemma held_in_removeTask [simp]: "held_in p b (removeTask i w) = held_in p b w"
  by (simp add: held_in_def)





section \<open>EventLoop: what one iteration adds to the history\<close>

lemma final_simps [simp]:
  "final (Inr s) = s" "final (Inl (e, s)) = s"
  "returned (Inr s) = True" "returned (Inl x) = False"
  by (simp_all add: final_def returned_def)

lemma in_loop_frame:
  "history (final (in_loop f lp)) = history lp \<and> pending (final (in_loop f lp)) = pending lp"
  by (auto simp: in_loop_def split: sum.splits)

lemma handle_active_history:
  "\<exists>m\<le>length chs.
     history (final (handle_active chs lp)) = history lp @ map Handled (take m (map fd chs)) \<and>
     pending (final (handle_active chs lp)) = pending lp \<and>
     (returned (handle_active chs lp) \<longrightarrow> m = length chs)"
proof (induction chs arbitrary: lp)
  case Nil
  then show ?case by simp
next
  case (Cons ch rest)
  let ?lp1 = "lp\<lparr>history := history lp @ [Handled (fd ch)]\<rparr>"
  show ?case
  proof (cases "in_loop (HandleEvent ch) ?lp1")
    case (Inl x)
    obtain e s where x: "x = (e, s)" by (cases x)
    have "history s = history lp @ [Handled (fd ch)] \<and> pending s = pending lp"
      using in_loop_frame [of "HandleEvent ch" ?lp1] Inl x by simp
    then show ?thesis
      using Inl x by (intro exI [of _ 1]) (simp add: and_then_def)
  next
    case (Inr lp2)
    have f: "history lp2 = history lp @ [Handled (fd ch)] \<and> pending lp2 = pending lp"
      using in_loop_frame [of "HandleEvent ch" ?lp1] Inr by simp
    from Cons.IH [of lp2] obtain m where m: "m \<le> length rest"
      "history (final (handle_active rest lp2)) = history lp2 @ map Handled (take m (map fd rest))"
      "pending (final (handle_active rest lp2)) = pending lp2"
      "returned (handle_active rest lp2) \<longrightarrow> m = length rest"
      by blast
    show ?thesis
      using Inr f m by (intro exI [of _ "Suc m"]) (simp add: and_then_def)
  qed
qed

lemma run_tasks_history:
  "\<exists>m\<le>length tasks.
     history (final (run_tasks k tasks lp)) = history lp @ map Ran [k..<k + m] \<and>
     pending (final (run_tasks k tasks lp)) = pending lp \<and>
     (returned (run_tasks k tasks lp) \<longrightarrow> m = length tasks)"
proof (induction tasks arbitrary: k lp)
  case Nil
  then show ?case by simp
next
  case (Cons t rest)
  let ?lp1 = "lp\<lparr>history := history lp @ [Ran k]\<rparr>"
  show ?case
  proof (cases "in_loop t ?lp1")
    case (Inl x)
    obtain e s where x: "x = (e, s)" by (cases x)
    have "history s = history lp @ [Ran k] \<and> pending s = pending lp"
      using in_loop_frame [of t ?lp1] Inl x by simp
    then show ?thesis
      using Inl x by (intro exI [of _ 1]) (simp add: and_then_def)
  next
    case (Inr lp2)
    have f: "history lp2 = history lp @ [Ran k] \<and> pending lp2 = pending lp"
      using in_loop_frame [of t ?lp1] Inr by simp
    from Cons.IH [of "Suc k" lp2] obtain m where m: "m \<le> length rest"
      "history (final (run_tasks (Suc k) rest lp2)) = history lp2 @ map Ran [Suc k..<Suc k + m]"
      "pending (final (run_tasks (Suc k) rest lp2)) = pending lp2"
      "returned (run_tasks (Suc k) rest lp2) \<longrightarrow> m = length rest"
      by blast
    show ?thesis
      using Inr f m by (intro exI [of _ "Suc m"]) (simp add: and_then_def upt_rec [of k])
  qed
qed

lemma Poll_ready_frame:
  "Poll_ready evs active lp = Inl (e, lp') \<Longrightarrow>
     history lp' = history lp \<and> pending lp' = pending lp"
  "Poll_ready evs active lp = Inr (active', lp') \<Longrightarrow>
     history lp' = history lp \<and> pending lp' = pending lp \<and>
     length active' = length active + length evs"
proof (induction evs arbitrary: active lp)
  case Nil
  { case 1 then show ?case by simp }
  { case 2 then show ?case by simp }
next
  case (Cons ev rest)
  obtain f rv where ev: "ev = (f, rv)" by (cases ev)
  { case 1
    then show ?case
      using Cons.IH(1) [where active = "active @ [SetRevents rv (the (channels lp f))]"
          and lp = "lp\<lparr>channels := (channels lp)(f \<mapsto> SetRevents rv (the (channels lp f)))\<rparr>"]
      by (cases "channels lp f") (auto simp: ev) }
  { case 2
    then show ?case
      using Cons.IH(2) [where active = "active @ [SetRevents rv (the (channels lp f))]"
          and lp = "lp\<lparr>channels := (channels lp)(f \<mapsto> SetRevents rv (the (channels lp f)))\<rparr>"]
      by (cases "channels lp f") (auto simp: ev) }
qed

lemma Poll_frame:
  "Poll r [] lp = Inl (e, lp') \<Longrightarrow> history lp' = history lp \<and> pending lp' = pending lp"
  "Poll r [] lp = Inr (active, lp') \<Longrightarrow> history lp' = history lp \<and> pending lp' = pending lp"
  using Poll_ready_frame [where active = "[]" and lp = lp and lp' = lp']
  by (cases r; auto simp: Poll_def split: if_splits)+

section \<open>EventLoop: what one iteration does to the world\<close>

lemma on_world_simps [simp]:
  "on_world (Inr lp) = Inr (world lp)" "on_world (Inl (e, lp)) = Inl (e, world lp)"
  by (simp_all add: on_world_def)

lemma on_world_in_loop: "on_world (in_loop f lp) = f (world lp)"
  by (auto simp: in_loop_def split: sum.splits)

lemma on_world_handle_active:
  "on_world (handle_active chs lp) = in_sequence (map HandleEvent chs) (world lp)"
proof (induction chs arbitrary: lp)
  case Nil
  then show ?case by simp
next
  case (Cons ch rest)
  let ?lp1 = "lp\<lparr>history := history lp @ [Handled (fd ch)]\<rparr>"
  have w: "on_world (in_loop (HandleEvent ch) ?lp1) = HandleEvent ch (world lp)"
    by (simp add: on_world_in_loop)
  show ?case
  proof (cases "in_loop (HandleEvent ch) ?lp1")
    case (Inl x)
    obtain e s where x: "x = (e, s)" by (cases x)
    have "HandleEvent ch (world lp) = Inl (e, world s)" using w Inl x by simp
    then show ?thesis using Inl x by (simp add: and_then_def)
  next
    case (Inr lp2)
    have "HandleEvent ch (world lp) = Inr (world lp2)" using w Inr by simp
    then show ?thesis using Inr Cons.IH [of lp2] by (simp add: and_then_def)
  qed
qed

lemma on_world_run_tasks:
  "on_world (run_tasks k tasks lp) = in_sequence tasks (world lp)"
proof (induction tasks arbitrary: k lp)
  case Nil
  then show ?case by simp
next
  case (Cons t rest)
  let ?lp1 = "lp\<lparr>history := history lp @ [Ran k]\<rparr>"
  have w: "on_world (in_loop t ?lp1) = t (world lp)"
    by (simp add: on_world_in_loop)
  show ?case
  proof (cases "in_loop t ?lp1")
    case (Inl x)
    obtain e s where x: "x = (e, s)" by (cases x)
    have "t (world lp) = Inl (e, world s)" using w Inl x by simp
    then show ?thesis using Inl x by (simp add: and_then_def)
  next
    case (Inr lp2)
    have "t (world lp) = Inr (world lp2)" using w Inr by simp
    then show ?thesis using Inr Cons.IH [of "Suc k" lp2] by (simp add: and_then_def)
  qed
qed

lemma Poll_ready_world:
  "Poll_ready evs active lp = Inl (e, lp') \<Longrightarrow> world lp' = world lp"
  "Poll_ready evs active lp = Inr (active', lp') \<Longrightarrow> world lp' = world lp"
proof (induction evs arbitrary: active lp)
  case Nil
  { case 1 then show ?case by simp }
  { case 2 then show ?case by simp }
next
  case (Cons ev rest)
  obtain f rv where ev: "ev = (f, rv)" by (cases ev)
  { case 1
    then show ?case
      using Cons.IH(1) [where active = "active @ [SetRevents rv (the (channels lp f))]"
          and lp = "lp\<lparr>channels := (channels lp)(f \<mapsto> SetRevents rv (the (channels lp f)))\<rparr>"]
      by (cases "channels lp f") (auto simp: ev) }
  { case 2
    then show ?case
      using Cons.IH(2) [where active = "active @ [SetRevents rv (the (channels lp f))]"
          and lp = "lp\<lparr>channels := (channels lp)(f \<mapsto> SetRevents rv (the (channels lp f)))\<rparr>"]
      by (cases "channels lp f") (auto simp: ev) }
qed

lemma Poll_world:
  "Poll r [] lp = Inl (e, lp') \<Longrightarrow> world lp' = world lp"
  "Poll r [] lp = Inr (active, lp') \<Longrightarrow> world lp' = world lp"
  using Poll_ready_world [where active = "[]" and lp = lp and lp' = lp']
  by (cases r; auto simp: Poll_def split: if_splits)+

lemma Start_on_world:
  assumes "Poll r [] lp = Inr (active, lp1)"
  shows "on_world (Start r lp) =
           and_then (in_sequence (map HandleEvent active) (world lp)) (in_sequence (pending lp))"
proof -
  have f1: "world lp1 = world lp" "pending lp1 = pending lp"
    using Poll_world(2) [OF assms] Poll_frame(2) [OF assms] by simp_all
  have S: "Start r lp = and_then (handle_active active lp1) RunPendingTasks"
    using assms by (simp add: Start_def)
  have H: "on_world (handle_active active lp1) = in_sequence (map HandleEvent active) (world lp)"
    using on_world_handle_active [of active lp1] f1 by simp
  show ?thesis
  proof (cases "handle_active active lp1")
    case (Inl x)
    obtain e s where x: "x = (e, s)" by (cases x)
    have "in_sequence (map HandleEvent active) (world lp) = Inl (e, world s)"
      using H Inl x by simp
    then show ?thesis using S Inl x by (simp add: and_then_def)
  next
    case (Inr lp2)
    have p2: "pending lp2 = pending lp"
      using handle_active_history [of active lp1] Inr f1 by auto
    have "on_world (Start r lp) = in_sequence (pending lp) (world lp2)"
      using S Inr p2 on_world_run_tasks [of 0 "pending lp" "lp2\<lparr>pending := []\<rparr>"]
      by (simp add: and_then_def RunPendingTasks_def)
    moreover have "in_sequence (map HandleEvent active) (world lp) = Inr (world lp2)"
      using H Inr by simp
    ultimately show ?thesis by (simp add: and_then_def)
  qed
qed

lemma on_world_Inr: "on_world r = Inr s \<Longrightarrow> returned r \<and> world (final r) = s"
  by (auto simp: on_world_def split: sum.splits prod.splits)

lemma in_sequence_append:
  "in_sequence (fs @ gs) s = and_then (in_sequence fs s) (in_sequence gs)"
  by (induction fs arbitrary: s) (auto simp: and_then_def split: sum.splits)

lemma in_sequence_tasks:
  "in_sequence (map task_cb [0..<n]) s = Inr (s @ map Executed [0..<n])"
  by (induction n arbitrary: s) (simp_all add: in_sequence_append and_then_def task_cb_def)

lemma calls_of_eq:
  "calls_of installed rv =
     filter installed
       ([EventCb] @
        (if rv AND EPOLLIN \<noteq> 0 \<or> rv AND EPOLLPRI \<noteq> 0 \<or> rv AND EPOLLRDHUP \<noteq> 0
         then [ReadCb] else []) @
        (if rv AND EPOLLERR \<noteq> 0 then [ErrorCb]
         else if rv AND EPOLLOUT \<noteq> 0 then [WriteCb]
         else if rv AND EPOLLHUP \<noteq> 0 then [CloseCb]
         else []))"
  by (simp add: calls_of_def HandleEvent_def recording_def slot_def invoke_def record_cb_def
      and_then_def)

lemma HandleEvent_watching:
  "HandleEvent (SetRevents rv (watching installed f)) seen =
     Inr (seen @ map (Dispatched f) (calls_of installed rv))"
  by (simp add: calls_of_eq HandleEvent_def watching_def SetRevents_def invoke_def
      dispatch_cb_def and_then_def)

lemma in_sequence_watching:
  "in_sequence (map HandleEvent (map (\<lambda>(f, rv). SetRevents rv (watching (installed f) f)) evs)) seen =
     Inr (seen @ concat (map (\<lambda>(f, rv). map (Dispatched f) (calls_of (installed f) rv)) evs))"
proof (induction evs arbitrary: seen)
  case Nil
  then show ?case by simp
next
  case (Cons ev rest)
  obtain f rv where ev: "ev = (f, rv)" by (cases ev)
  show ?case using Cons.IH by (simp add: ev HandleEvent_watching and_then_def)
qed

lemma Poll_ready_watching:
  assumes "\<forall>f. \<exists>rv0. channels lp f = Some (SetRevents rv0 (watching (installed f) f))"
  shows "\<exists>lp'. Poll_ready evs active lp =
           Inr (active @ map (\<lambda>(f, rv). SetRevents rv (watching (installed f) f)) evs, lp')"
  using assms
proof (induction evs arbitrary: active lp)
  case Nil
  then show ?case by simp
next
  case (Cons ev rest)
  obtain f rv where ev: "ev = (f, rv)" by (cases ev)
  obtain rv0 where c: "channels lp f = Some (SetRevents rv0 (watching (installed f) f))"
    using Cons.prems by blast
  have s: "SetRevents rv (SetRevents rv0 (watching (installed f) f)) =
           SetRevents rv (watching (installed f) f)"
    by (simp add: SetRevents_def)
  let ?lp1 = "lp\<lparr>channels := (channels lp)(f \<mapsto> SetRevents rv (watching (installed f) f))\<rparr>"
  have "\<forall>g. \<exists>rv0. channels ?lp1 g = Some (SetRevents rv0 (watching (installed g) g))"
    using Cons.prems by auto
  from Cons.IH [OF this, of "active @ [SetRevents rv (watching (installed f) f)]"]
  show ?case by (simp add: ev c s)
qed

lemma Poll_observing:
  "\<exists>lp'. Poll (WaitReady evs) [] (observing installed n seen) =
     Inr (map (\<lambda>(f, rv). SetRevents rv (watching (installed f) f)) evs, lp')"
proof -
  have "\<forall>f. \<exists>rv0. channels (observing installed n seen) f =
      Some (SetRevents rv0 (watching (installed f) f))"
    by (auto simp: observing_def SetRevents_def watching_def intro!: exI [of _ 0])
  from Poll_ready_watching [OF this, of evs "[]"] show ?thesis by (simp add: Poll_def)
qed

lemma Start_observing:
  "on_world (Start (WaitReady evs) (observing installed n seen)) =
     Inr (seen @ concat (map (\<lambda>(f, rv). map (Dispatched f) (calls_of (installed f) rv)) evs) @
          map Executed [0..<n])"
proof -
  obtain lp' where P: "Poll (WaitReady evs) [] (observing installed n seen) =
     Inr (map (\<lambda>(f, rv). SetRevents rv (watching (installed f) f)) evs, lp')"
    using Poll_observing by blast
  show ?thesis
    unfolding Start_on_world [OF P]
    using in_sequence_watching [of installed evs seen]
    by (simp add: observing_def and_then_def in_sequence_tasks del: map_map)
qed


lemma Start_on_world_thrown:
  assumes "Poll r [] lp = Inl (e, lp1)"
  shows "on_world (Start r lp) = Inl (e, world lp)"
  using assms Poll_world(1) [OF assms] by (simp add: Start_def)

text \<open>What one iteration appends to the history: handled channels, then tasks run.\<close>

lemma Start_history:
  "\<exists>hs ts.
     history (final (Start r lp)) = history lp @ map Handled hs @ map Ran ts \<and>
     (\<forall>active lp1. Poll r [] lp = Inr (active, lp1) \<longrightarrow>
        (ts \<noteq> [] \<or> returned (Start r lp) \<longrightarrow> hs = map fd active) \<and>
        (returned (Start r lp) \<longrightarrow>
           ts = [0..<length (pending lp)] \<and> pending (final (Start r lp)) = []))"
proof (cases "Poll r [] lp")
  case (Inl x)
  obtain e lp' where x: "x = (e, lp')" by (cases x)
  have "history lp' = history lp" using Poll_frame(1) [of r lp e lp'] Inl x by simp
  then show ?thesis
    using Inl x by (intro exI [of _ "[]"]) (simp add: Start_def)
next
  case (Inr y)
  obtain active lp1 where y: "y = (active, lp1)" by (cases y)
  have P: "Poll r [] lp = Inr (active, lp1)" using Inr y by simp
  have f1: "history lp1 = history lp" "pending lp1 = pending lp"
    using Poll_frame(2) [OF P] by simp_all
  have S: "Start r lp = and_then (handle_active active lp1) RunPendingTasks"
    using P by (simp add: Start_def)
  obtain m where m: "m \<le> length active"
    "history (final (handle_active active lp1)) =
       history lp1 @ map Handled (take m (map fd active))"
    "pending (final (handle_active active lp1)) = pending lp1"
    "returned (handle_active active lp1) \<longrightarrow> m = length active"
    using handle_active_history [of active lp1] by blast
  show ?thesis
  proof (cases "handle_active active lp1")
    case (Inl x)
    obtain e s where x: "x = (e, s)" by (cases x)
    have "Start r lp = Inl (e, s)" using S Inl x by (simp add: and_then_def)
    then show ?thesis
      using m(2) Inl x f1 P
      by (intro exI [of _ "take m (map fd active)"] exI [of _ "[]"]) simp
  next
    case (Inr lp2)
    have h2: "history lp2 = history lp @ map Handled (map fd active)" "pending lp2 = pending lp"
      using m Inr f1 by simp_all
    have S2: "Start r lp = run_tasks 0 (pending lp) (lp2\<lparr>pending := []\<rparr>)"
      using S Inr h2(2) by (simp add: and_then_def RunPendingTasks_def)
    obtain n where n: "n \<le> length (pending lp)"
      "history (final (run_tasks 0 (pending lp) (lp2\<lparr>pending := []\<rparr>))) =
         history (lp2\<lparr>pending := []\<rparr>) @ map Ran [0..<0 + n]"
      "pending (final (run_tasks 0 (pending lp) (lp2\<lparr>pending := []\<rparr>))) =
         pending (lp2\<lparr>pending := []\<rparr>)"
      "returned (run_tasks 0 (pending lp) (lp2\<lparr>pending := []\<rparr>)) \<longrightarrow> n = length (pending lp)"
      using run_tasks_history [of "pending lp" 0 "lp2\<lparr>pending := []\<rparr>"] by blast
    show ?thesis
      using n h2 P unfolding S2
      by (intro exI [of _ "map fd active"] exI [of _ "[0..<n]"]) simp
  qed
qed

section \<open>Claims about Buffer\<close>

text \<open>
  Claim C3. With \<open>r = read_idx\<close>, \<open>w = write_idx\<close>, \<open>cap = length buffer\<close> and a
  request to write \<open>n\<close> bytes on a buffer with \<open>r \<le> w \<le> cap\<close>:
  \<^item> if \<open>n \<le> cap - w\<close>, \<open>EnsureWritable\<close> changes nothing and \<open>Write\<close> puts the bytes
    at \<open>[w, w + n)\<close> in place;
  \<^item> if \<open>n > cap - w\<close> and \<open>n \<le> (cap - w) + r\<close>, the readable region is moved to offset 0
    (the read cursor becomes 0, the write cursor \<open>w - r\<close>), the capacity is unchanged, and
    the bytes are written behind it;
  \<^item> otherwise the vector grows by \<open>n\<close> zero bytes and the cursors stay.
  After any sequence of public calls (from a buffer with \<open>r \<le> w \<le> cap\<close>, and so from a
  freshly constructed one) no call has thrown and \<open>r \<le> w \<le> cap\<close> holds.
\<close>

theorem Buffer_Write_cases_and_cursor_invariant:
  assumes "buffer_inv b"
  shows
    "(length data \<le> length (buffer b) - write_idx b \<longrightarrow>
        EnsureWritable b (length data) = b \<and>
        Write b data True =
          Inr (b\<lparr>buffer := take (write_idx b) (buffer b) @ data @
                             drop (write_idx b + length data) (buffer b),
                 write_idx := write_idx b + length data\<rparr>)) \<and>
     (length data > length (buffer b) - write_idx b \<and>
      length data \<le> (length (buffer b) - write_idx b) + read_idx b \<longrightarrow>
        read_idx (EnsureWritable b (length data)) = 0 \<and>
        write_idx (EnsureWritable b (length data)) = write_idx b - read_idx b \<and>
        length (buffer (EnsureWritable b (length data))) = length (buffer b) \<and>
        take (write_idx b - read_idx b) (buffer (EnsureWritable b (length data))) = readable b \<and>
        (\<exists>b'. Write b data True = Inr b' \<and> read_idx b' = 0 \<and>
              length (buffer b') = length (buffer b) \<and> readable b' = readable b @ data)) \<and>
     (length data > (length (buffer b) - write_idx b) + read_idx b \<longrightarrow>
        EnsureWritable b (length data) = b\<lparr>buffer := buffer b @ replicate (length data) 0\<rparr> \<and>
        length (buffer (EnsureWritable b (length data))) > length (buffer b) \<and>
        (\<exists>b'. Write b data True = Inr b' \<and> read_idx b' = read_idx b \<and>
              length (buffer b') = length (buffer b) + length data \<and>
              readable b' = readable b @ data)) \<and>
     (\<exists>b'. calls b cs = Inr b' \<and>
           read_idx b' \<le> write_idx b' \<and> write_idx b' \<le> length (buffer b')) \<and>
     (\<exists>b'. calls (Buffer_ctor sz) cs = Inr b' \<and>
           read_idx b' \<le> write_idx b' \<and> write_idx b' \<le> length (buffer b'))"
proof -
  let ?n = "length data"
  obtain bw where bw: "Write b data True = Inr bw" "buffer_inv bw"
      "readable bw = readable b @ data"
    using Write_result [OF assms, of data True] by auto
  have W: "Write b data True =
      MoveWriteIdx ((EnsureWritable b ?n)\<lparr>buffer :=
          copy_in data (buffer (EnsureWritable b ?n)) (write_idx (EnsureWritable b ?n))\<rparr>) ?n"
    by (simp add: Write_def Let_def)
  have fits: "EnsureWritable b ?n = b \<and>
        Write b data True =
          Inr (b\<lparr>buffer := take (write_idx b) (buffer b) @ data @
                             drop (write_idx b + length data) (buffer b),
                 write_idx := write_idx b + length data\<rparr>)"
    if h: "?n \<le> length (buffer b) - write_idx b"
  proof -
    have e: "EnsureWritable b ?n = b" using h by (simp add: EnsureWritable_fits BackSize_def)
    have f: "write_idx b + ?n \<le> length (buffer b)"
      using h assms by (auto simp: buffer_inv_def)
    show ?thesis using h f by (simp add: W e copy_in_eq MoveWriteIdx_def BackSize_def)
  qed
  have shift: "read_idx (EnsureWritable b ?n) = 0 \<and>
        write_idx (EnsureWritable b ?n) = write_idx b - read_idx b \<and>
        length (buffer (EnsureWritable b ?n)) = length (buffer b) \<and>
        take (write_idx b - read_idx b) (buffer (EnsureWritable b ?n)) = readable b \<and>
        (\<exists>b'. Write b data True = Inr b' \<and> read_idx b' = 0 \<and>
              length (buffer b') = length (buffer b) \<and> readable b' = readable b @ data)"
    if h: "?n > length (buffer b) - write_idx b"
          "?n \<le> (length (buffer b) - write_idx b) + read_idx b"
  proof -
    have e: "EnsureWritable b ?n =
           b\<lparr>buffer := readable b @ drop (write_idx b - read_idx b) (buffer b),
             write_idx := write_idx b - read_idx b, read_idx := 0\<rparr>"
      using h assms
      by (intro EnsureWritable_shift) (simp_all add: BackSize_def WritableSize_def FrontSize_def)
    have l: "length (readable b) = write_idx b - read_idx b"
      using assms by (auto simp: readable_def buffer_inv_def)
    have len: "length (buffer (EnsureWritable b ?n)) = length (buffer b)"
      using assms by (auto simp: e l buffer_inv_def)
    have "read_idx bw = 0" "length (buffer bw) = length (buffer b)"
      using bw(1) len unfolding W by (auto simp: MoveWriteIdx_def e split: if_splits)
    then show ?thesis using bw len l by (simp add: e)
  qed
  have grow: "EnsureWritable b ?n = b\<lparr>buffer := buffer b @ replicate ?n 0\<rparr> \<and>
        length (buffer (EnsureWritable b ?n)) > length (buffer b) \<and>
        (\<exists>b'. Write b data True = Inr b' \<and> read_idx b' = read_idx b \<and>
              length (buffer b') = length (buffer b) + ?n \<and>
              readable b' = readable b @ data)"
    if h: "?n > (length (buffer b) - write_idx b) + read_idx b"
  proof -
    have e: "EnsureWritable b ?n = b\<lparr>buffer := buffer b @ replicate ?n 0\<rparr>"
      using h by (intro EnsureWritable_grow) (simp_all add: BackSize_def WritableSize_def FrontSize_def)
    have "read_idx bw = read_idx b" "length (buffer bw) = length (buffer b) + ?n"
      using bw(1) unfolding W by (auto simp: MoveWriteIdx_def e split: if_splits)
    moreover have "data \<noteq> []" using h by auto
    ultimately show ?thesis using bw by (simp add: e)
  qed
  have seq: "\<exists>b'. calls b0 cs = Inr b' \<and>
           read_idx b' \<le> write_idx b' \<and> write_idx b' \<le> length (buffer b')"
    if "buffer_inv b0" for b0
    using calls_result [OF that, of cs] by (auto simp: buffer_inv_def)
  show ?thesis
    using fits shift grow seq [OF assms] seq [OF Buffer_ctor_inv] by blast
qed

text \<open>The three cases and a run of calls, on the buffer \<open>[1, 2, 3, 0]\<close> with \<open>r = 2\<close>,
  \<open>w = 3\<close>: one byte fits, two bytes shift, four bytes grow.\<close>

theorem Buffer_Write_cases_and_cursor_invariant_witness:
  "buffer_inv \<lparr>buffer = [1, 2, 3, 0], read_idx = 2, write_idx = 3\<rparr> \<and>
   Write \<lparr>buffer = [1, 2, 3, 0], read_idx = 2, write_idx = 3\<rparr> [7] True =
     Inr \<lparr>buffer = [1, 2, 3, 7], read_idx = 2, write_idx = 4\<rparr> \<and>
   EnsureWritable \<lparr>buffer = [1, 2, 3, 0], read_idx = 2, write_idx = 3\<rparr> 2 =
     \<lparr>buffer = [3, 2, 3, 0], read_idx = 0, write_idx = 1\<rparr> \<and>
   (\<exists>b'. Write \<lparr>buffer = [1, 2, 3, 0], read_idx = 2, write_idx = 3\<rparr> [7, 8] True = Inr b' \<and>
      read_idx b' = 0 \<and> length (buffer b') = 4 \<and> readable b' = [3, 7, 8]) \<and>
   (\<exists>b'. Write \<lparr>buffer = [1, 2, 3, 0], read_idx = 2, write_idx = 3\<rparr> [7, 8, 9, 10] True = Inr b' \<and>
      read_idx b' = 2 \<and> length (buffer b') = 8 \<and> readable b' = [3, 7, 8, 9, 10]) \<and>
   (\<exists>b'. calls (Buffer_ctor 2) [CallWrite [1, 2, 3] True, CallRead 2 True, CallClear] = Inr b' \<and>
      read_idx b' \<le> write_idx b' \<and> write_idx b' \<le> length (buffer b'))"
proof -
  let ?b = "\<lparr>buffer = [1, 2, 3, 0], read_idx = 2, write_idx = 3\<rparr> :: Buffer"
  have inv: "buffer_inv ?b" by (simp add: buffer_inv_def)
  have rd: "readable ?b = [3]" by (simp add: readable_def)
  have sh: "EnsureWritable ?b 2 = \<lparr>buffer = [3, 2, 3, 0], read_idx = 0, write_idx = 1\<rparr>"
    by (simp add: EnsureWritable_def BackSize_def WritableSize_def FrontSize_def std_copy.simps)
  note t1 = Buffer_Write_cases_and_cursor_invariant [OF inv, of "[7]" "[]" 0]
  note t2 = Buffer_Write_cases_and_cursor_invariant [OF inv, of "[7, 8]" "[]" 0]
  note t3 = Buffer_Write_cases_and_cursor_invariant [OF inv, of "[7, 8, 9, 10]"
      "[CallWrite [1, 2, 3] True, CallRead 2 True, CallClear]" 2]
  have c1: "Write ?b [7] True = Inr \<lparr>buffer = [1, 2, 3, 7], read_idx = 2, write_idx = 4\<rparr>"
    using t1 by simp
  have c2: "\<exists>b'. Write ?b [7, 8] True = Inr b' \<and>
      read_idx b' = 0 \<and> length (buffer b') = 4 \<and> readable b' = [3, 7, 8]"
    using t2 by (auto simp: rd)
  have c3: "\<exists>b'. Write ?b [7, 8, 9, 10] True = Inr b' \<and>
      read_idx b' = 2 \<and> length (buffer b') = 8 \<and> readable b' = [3, 7, 8, 9, 10]"
    using t3 by (auto simp: rd)
  have c4: "\<exists>b'. calls (Buffer_ctor 2) [CallWrite [1, 2, 3] True, CallRead 2 True, CallClear] = Inr b' \<and>
      read_idx b' \<le> write_idx b' \<and> write_idx b' \<le> length (buffer b')"
    using t3 by blast
  show ?thesis using inv sh c1 c2 c3 c4 by blast
qed

text \<open>
  Claim C8. For every byte sequence \<open>B\<close> and every \<open>n \<le> |B|\<close>: after \<open>Write\<close> of \<open>B\<close> on
  a buffer with no readable bytes, a peek of \<open>n\<close> bytes (\<open>Read\<close> or \<open>ReadAsString\<close> with
  \<open>pop = false\<close>) returns exactly the first \<open>n\<close> bytes of \<open>B\<close> and leaves the buffer as
  it was; and after consuming \<open>|B|\<close> bytes (\<open>Read\<close> with \<open>pop = true\<close>) \<open>ReadableSize\<close>
  is 0.
\<close>

theorem Buffer_write_then_peek_and_consume:
  assumes "buffer_inv b" and "read_idx b = write_idx b" and "n \<le> length B"
  shows "\<exists>b'. Write b B True = Inr b' \<and>
           Read b' n False = Inr (Some (take n B), b') \<and>
           ReadAsString b' n False = Inr (take n B, b') \<and>
           ReadableSize b' = length B \<and>
           (\<exists>b''. Read b' (length B) True = Inr (Some B, b'') \<and> ReadableSize b'' = 0)"
proof -
  obtain b' where W: "Write b B True = Inr b'" and inv: "buffer_inv b'"
      and rd: "readable b' = readable b @ B"
    using Write_result [OF assms(1), of B True] by auto
  have rdB: "readable b' = B" using rd assms(2) by (simp add: readable_def)
  have len: "write_idx b' - read_idx b' = length B"
    using rdB inv by (auto simp: readable_def buffer_inv_def dest: arg_cong [where f = length])
  have pre: "take n (drop (read_idx b') (buffer b')) = take n B" if "n \<le> length B" for n
  proof -
    have "take n (readable b') = take n (drop (read_idx b') (buffer b'))"
      using that len by (simp add: readable_def min_def)
    then show ?thesis using rdB by simp
  qed
  have peek: "Read b' n False = Inr (Some (take n B), b')"
    using assms(3) len pre [OF assms(3)] by (simp add: Read_def ReadableSize_def)
  have peeks: "ReadAsString b' n False = Inr (take n B, b')"
    using assms(3) len pre [OF assms(3)] by (simp add: ReadAsString_def ReadableSize_def)
  have consume: "Read b' (length B) True =
      Inr (Some B, b'\<lparr>read_idx := read_idx b' + length B\<rparr>)"
    using len pre [of "length B"] inv
    by (auto simp: Read_def ReadableSize_def MoveReadIdx_def buffer_inv_def)
  have "ReadableSize (b'\<lparr>read_idx := read_idx b' + length B\<rparr>) = 0"
    using len by (simp add: ReadableSize_def)
  then show ?thesis using W peek peeks consume len by (simp add: ReadableSize_def)
qed

text \<open>The witness: \<^verbatim>\<open>"hi\n"\<close> written to a fresh buffer of capacity 2.\<close>

theorem Buffer_write_then_peek_and_consume_witness:
  "buffer_inv (Buffer_ctor 2) \<and> read_idx (Buffer_ctor 2) = write_idx (Buffer_ctor 2) \<and>
   (2::nat) \<le> length [104, 105, 10 :: byte] \<and>
   (\<exists>b'. Write (Buffer_ctor 2) [104, 105, 10] True = Inr b' \<and>
      Read b' 2 False = Inr (Some [104, 105], b') \<and>
      ReadAsString b' 2 False = Inr ([104, 105], b') \<and>
      ReadableSize b' = 3 \<and>
      (\<exists>b''. Read b' 3 True = Inr (Some [104, 105, 10], b'') \<and> ReadableSize b'' = 0))"
proof -
  have inv: "buffer_inv (Buffer_ctor 2)" by (simp add: Buffer_ctor_def buffer_inv_def)
  have e: "read_idx (Buffer_ctor 2) = write_idx (Buffer_ctor 2)" by (simp add: Buffer_ctor_def)
  have n: "(2::nat) \<le> length [104, 105, 10 :: byte]" by simp
  show ?thesis
    using inv e n Buffer_write_then_peek_and_consume [OF inv e n]
    by (auto simp: numeral_3_eq_3 [symmetric])
qed

text \<open>
  Claim C9. Through the public interface the two \<^verbatim>\<open>std::out_of_range\<close> throws are
  unreachable: every run of public calls on a constructed buffer ends without an
  exception, the next call returns too, every guarded \<open>MoveReadIdx\<close> (\<open>len \<le>
  ReadableSize\<close>) succeeds, and \<open>EnsureWritable\<close> leaves \<open>len \<le> BackSize\<close>, which is
  the guard of \<open>MoveWriteIdx\<close>.
\<close>

theorem Buffer_public_calls_never_throw:
  "(\<exists>b. calls (Buffer_ctor sz) cs = Inr b \<and>
        (\<exists>b'. call b c = Inr b') \<and>
        (\<forall>len pop e. Read b len pop \<noteq> Inl e \<and> ReadAsString b len pop \<noteq> Inl e) \<and>
        (\<forall>pop e. ReadLine b pop \<noteq> Inl e) \<and>
        (\<forall>data push e. Write b data push \<noteq> Inl e) \<and>
        (\<forall>len. len \<le> ReadableSize b \<longrightarrow>
           MoveReadIdx b len = Inr (b\<lparr>read_idx := read_idx b + len\<rparr>)) \<and>
        (\<forall>len. len \<le> BackSize (EnsureWritable b len))) \<and>
   (\<forall>e. calls (Buffer_ctor sz) cs \<noteq> Inl e)"
proof -
  obtain b where b: "calls (Buffer_ctor sz) cs = Inr b" and inv: "buffer_inv b"
    using calls_result [OF Buffer_ctor_inv, of sz cs] by blast
  have 1: "\<exists>b'. call b c = Inr b'" using call_result [OF inv, of c] by blast
  have 2: "Read b len pop \<noteq> Inl e" "ReadAsString b len pop \<noteq> Inl e" for len pop e
    using Read_result [OF inv, of len pop] ReadAsString_result [OF inv, of len pop] by auto
  have 3: "ReadLine b pop \<noteq> Inl e" for pop e
    using ReadLine_result [OF inv, of pop] by auto
  have 4: "Write b data push \<noteq> Inl e" for data push e
    using Write_result [OF inv, of data push] by auto
  have 5: "MoveReadIdx b len = Inr (b\<lparr>read_idx := read_idx b + len\<rparr>)"
    if "len \<le> ReadableSize b" for len
    using that inv by (auto simp: MoveReadIdx_def ReadableSize_def buffer_inv_def)
  have 6: "len \<le> BackSize (EnsureWritable b len)" for len
    by (rule EnsureWritable_BackSize [OF inv])
  show ?thesis using b 1 2 3 4 5 6 by simp
qed

text \<open>A run with an over-read, a line read without a newline and a growing write.\<close>

theorem Buffer_public_calls_never_throw_witness:
  "\<exists>b. calls (Buffer_ctor 1)
         [CallWrite [1, 2, 3] True, CallRead 9 True, CallReadLine True,
          CallReadAsString 2 True, CallWrite [4] True] = Inr b \<and>
       (\<exists>b'. call b (CallRead 2 True) = Inr b')"
  using Buffer_public_calls_never_throw [of 1
      "[CallWrite [1, 2, 3] True, CallRead 9 True, CallReadLine True,
        CallReadAsString 2 True, CallWrite [4] True]" "CallRead 2 True"]
  by blast

section \<open>Claims about Socket\<close>

text \<open>
  Claim C10. When \<^verbatim>\<open>recv\<close> or \<^verbatim>\<open>send\<close> fails (returns \<open>- 1\<close>) with
  \<^verbatim>\<open>errno\<close> \<^verbatim>\<open>EAGAIN\<close> or \<^verbatim>\<open>EINTR\<close>, \<open>Recv\<close> and \<open>Send\<close> return 0 and log
  nothing. An orderly close of the peer makes \<^verbatim>\<open>recv\<close> return 0, which \<open>Recv\<close>
  passes on: the two cases give the caller the same value. Any other failure is
  returned as \<open>- 1\<close> with an error line logged, and every other result is passed on.
\<close>

theorem Recv_Send_transient_is_zero:
  "(e = EAGAIN \<or> e = EINTR \<longrightarrow> Recv (- 1, e) = (0, []) \<and> Send (- 1, e) = (0, [])) \<and>
   Recv (0, e') = (0, []) \<and>
   fst (Recv (- 1, EAGAIN)) = fst (Recv (0, e')) \<and>
   fst (Recv (- 1, EINTR)) = fst (Recv (0, e')) \<and>
   (e \<noteq> EAGAIN \<and> e \<noteq> EINTR \<longrightarrow>
      Recv (- 1, e) = (- 1, [(Error, ''recv failed'')]) \<and>
      Send (- 1, e) = (- 1, [(Error, ''send failed'')])) \<and>
   (n \<noteq> - 1 \<longrightarrow> Recv (n, e) = (n, []) \<and> Send (n, e) = (n, []))"
  by (simp add: Recv_def Send_def)

text \<open>The witness: \<^verbatim>\<open>EAGAIN\<close>, an orderly close, \<^verbatim>\<open>ECONNRESET\<close> (104), and five
  bytes received.\<close>

theorem Recv_Send_transient_is_zero_witness:
  "Recv (- 1, EAGAIN) = (0, []) \<and> Send (- 1, EAGAIN) = (0, []) \<and>
   Recv (0, 0) = (0, []) \<and> Recv (- 1, 104) = (- 1, [(Error, ''recv failed'')]) \<and>
   Recv (5, EAGAIN) = (5, [])"
  using Recv_Send_transient_is_zero [of EAGAIN 0 5] Recv_Send_transient_is_zero [of 104 0 5]
  by (simp add: EAGAIN_def EINTR_def)

section \<open>Claims about Channel\<close>

text \<open>
  Claim C1. For every \<^verbatim>\<open>_revents\<close> mask \<open>rv\<close>, on a channel whose callbacks record
  their names, \<open>HandleEvent\<close> returns, and what it has recorded is, in this order: the
  any-event hook; then the read callback if one of \<^verbatim>\<open>EPOLLIN\<close>, \<^verbatim>\<open>EPOLLPRI\<close>,
  \<^verbatim>\<open>EPOLLRDHUP\<close> is set in \<open>rv\<close>; then the error callback if \<^verbatim>\<open>EPOLLERR\<close> is
  set, otherwise the write callback if \<^verbatim>\<open>EPOLLOUT\<close> is set, otherwise the close
  callback if \<^verbatim>\<open>EPOLLHUP\<close> is set; each of them only when it is installed. So at
  most one of the error, write and close callbacks is called.
\<close>

theorem HandleEvent_dispatch_order:
  "HandleEvent (recording installed rv) seen =
     Inr (seen @ filter installed
       ([EventCb] @
        (if rv AND EPOLLIN \<noteq> 0 \<or> rv AND EPOLLPRI \<noteq> 0 \<or> rv AND EPOLLRDHUP \<noteq> 0
         then [ReadCb] else []) @
        (if rv AND EPOLLERR \<noteq> 0 then [ErrorCb]
         else if rv AND EPOLLOUT \<noteq> 0 then [WriteCb]
         else if rv AND EPOLLHUP \<noteq> 0 then [CloseCb]
         else []))) \<and>
   length (filter (\<lambda>k. k = ErrorCb \<or> k = WriteCb \<or> k = CloseCb)
             (final (HandleEvent (recording installed rv) []))) \<le> 1"
proof -
  have eq: "HandleEvent (recording installed rv) seen =
     Inr (seen @ filter installed
       ([EventCb] @
        (if rv AND EPOLLIN \<noteq> 0 \<or> rv AND EPOLLPRI \<noteq> 0 \<or> rv AND EPOLLRDHUP \<noteq> 0
         then [ReadCb] else []) @
        (if rv AND EPOLLERR \<noteq> 0 then [ErrorCb]
         else if rv AND EPOLLOUT \<noteq> 0 then [WriteCb]
         else if rv AND EPOLLHUP \<noteq> 0 then [CloseCb]
         else [])))" for seen
    by (simp add: HandleEvent_def recording_def slot_def invoke_def record_cb_def and_then_def)
  show ?thesis
    unfolding eq by simp
qed

text \<open>Four masks: error wins over writable and hangup, writable over hangup, hangup
  alone, and a channel without the any-event hook.\<close>

theorem HandleEvent_dispatch_order_witness:
  "HandleEvent (recording (\<lambda>k. True) (EPOLLIN OR EPOLLERR OR EPOLLOUT OR EPOLLHUP)) [] =
     Inr [EventCb, ReadCb, ErrorCb] \<and>
   HandleEvent (recording (\<lambda>k. True) (EPOLLRDHUP OR EPOLLOUT OR EPOLLHUP)) [] =
     Inr [EventCb, ReadCb, WriteCb] \<and>
   HandleEvent (recording (\<lambda>k. True) EPOLLHUP) [] = Inr [EventCb, CloseCb] \<and>
   HandleEvent (recording (\<lambda>k. k \<noteq> EventCb) EPOLLPRI) [] = Inr [ReadCb]"
  using HandleEvent_dispatch_order [of "\<lambda>k. True" "EPOLLIN OR EPOLLERR OR EPOLLOUT OR EPOLLHUP" "[]"]
    HandleEvent_dispatch_order [of "\<lambda>k. True" "EPOLLRDHUP OR EPOLLOUT OR EPOLLHUP" "[]"]
    HandleEvent_dispatch_order [of "\<lambda>k. True" EPOLLHUP "[]"]
    HandleEvent_dispatch_order [of "\<lambda>k. k \<noteq> EventCb" EPOLLPRI "[]"]
  by (simp add: EPOLLIN_def EPOLLPRI_def EPOLLOUT_def EPOLLERR_def EPOLLHUP_def EPOLLRDHUP_def)

text \<open>
  Claim C4 says that a channel never closes its descriptor, so that a descriptor is
  closed once. The source's \<^verbatim>\<open>~Channel\<close> calls \<^verbatim>\<open>close(_fd)\<close>: destroying the
  channel and the socket of one connection (descriptor 7) calls \<^verbatim>\<open>close(7)\<close>
  twice, and destroying an event loop with eventfd 3, timerfd 4 and epoll descriptor 5
  closes 3 twice and 4 twice.
\<close>

theorem fd_closed_twice:
  "Connection_dtor \<lparr>sockfd = 7\<rparr> (Channel_ctor 7 :: unit Channel) [] = [7, 7] \<and>
   count_list (Connection_dtor \<lparr>sockfd = 7\<rparr> (Channel_ctor 7 :: unit Channel) []) 7 = 2 \<and>
   EventLoop_dtor 3 4 5 [] = [3, 3, 4, 4, 5]"
  by (simp add: Connection_dtor_def Socket_dtor_def Close_def Channel_dtor_def Channel_ctor_def
      sys_close_def EventLoop_dtor_def TimerWheel_dtor_def)

section \<open>Claims about the timer wheel\<close>







text \<open>
  Claim C7, as the code has it. A \<^verbatim>\<open>read\<close> of the timer descriptor or of the
  eventfd that does not return 8 is fatal whenever \<^verbatim>\<open>errno\<close> is neither
  \<^verbatim>\<open>EAGAIN\<close> nor \<^verbatim>\<open>EINTR\<close>: a line is logged at level \<open>Fatal\<close> and a
  \<^verbatim>\<open>runtime_error\<close> is thrown. A \<^verbatim>\<open>read\<close> that fails (\<open>- 1\<close>) with
  \<^verbatim>\<open>EAGAIN\<close> or \<^verbatim>\<open>EINTR\<close> is not an error: the callback returns, nothing is
  logged, and the wheel does not tick. A \<^verbatim>\<open>read\<close> of 8 bytes ticks the wheel.
\<close>

theorem short_read_is_fatal_unless_transient:
  "(n \<noteq> 8 \<and> e \<noteq> EAGAIN \<and> e \<noteq> EINTR \<longrightarrow>
      OnTime (n, e) w =
        Inl (RuntimeError ''read timerfd failed'',
             w\<lparr>wheel_logged := wheel_logged w @ [(Fatal, ''read timerfd failed'')]\<rparr>) \<and>
      ReadEventfd (n, e) lp =
        Inl (RuntimeError ''read eventfd failed'',
             lp\<lparr>loop_logged := loop_logged lp @ [(Fatal, ''read eventfd failed'')]\<rparr>)) \<and>
   (n = - 1 \<and> (e = EAGAIN \<or> e = EINTR) \<longrightarrow>
      OnTime (n, e) w = Inr w \<and> ReadEventfd (n, e) lp = Inr lp) \<and>
   (n = 8 \<longrightarrow> OnTime (n, e) w = Inr (Tick w) \<and> ReadEventfd (n, e) lp = Inr lp)"
  by (simp add: OnTime_def ReadEventfd_def)

text \<open>The witness: a read of 3 bytes with \<^verbatim>\<open>errno = EIO\<close> (5), a failed read with
  \<^verbatim>\<open>EAGAIN\<close>, and a full read.\<close>

theorem short_read_is_fatal_unless_transient_witness:
  "OnTime (3, 5) (TimerWheel_ctor :: nat TimerWheel) =
     Inl (RuntimeError ''read timerfd failed'',
          TimerWheel_ctor\<lparr>wheel_logged := [(Fatal, ''read timerfd failed'')]\<rparr>) \<and>
   ReadEventfd (3, 5)
       \<lparr>channels = Map.empty, pending = [], world = (), loop_logged = [], history = []\<rparr> =
     Inl (RuntimeError ''read eventfd failed'',
          \<lparr>channels = Map.empty, pending = [], world = (),
           loop_logged = [(Fatal, ''read eventfd failed'')], history = []\<rparr>) \<and>
   OnTime (- 1, EAGAIN) (TimerWheel_ctor :: nat TimerWheel) = Inr TimerWheel_ctor \<and>
   OnTime (8, 0) (TimerWheel_ctor :: nat TimerWheel) = Inr (Tick TimerWheel_ctor)"
proof -
  let ?w = "TimerWheel_ctor :: nat TimerWheel"
  let ?lp = "\<lparr>channels = Map.empty, pending = [], world = (), loop_logged = [],
              history = []\<rparr> :: unit EventLoop"
  have l: "wheel_logged ?w = []" by (simp add: TimerWheel_ctor_def)
  have ne: "(3::int) \<noteq> 8 \<and> (5::int) \<noteq> EAGAIN \<and> (5::int) \<noteq> EINTR"
    by (simp add: EAGAIN_def EINTR_def)
  show ?thesis
    using short_read_is_fatal_unless_transient [where n = 3 and e = 5 and w = ?w and lp = ?lp]
      short_read_is_fatal_unless_transient [where n = "- 1" and e = EAGAIN and w = ?w and lp = ?lp]
      short_read_is_fatal_unless_transient [where n = 8 and e = 0 and w = ?w and lp = ?lp]
      ne l
    by simp
qed

text \<open>
  Where the claim as written fails: \<^verbatim>\<open>errno\<close> is tested whatever \<^verbatim>\<open>read\<close>
  returned, so a read of 3 bytes while \<^verbatim>\<open>errno\<close> holds \<^verbatim>\<open>EAGAIN\<close> returns
  without a log line and without an exception, as does a read interrupted by a signal.
\<close>

theorem short_read_with_EAGAIN_returns:
  "OnTime (3, EAGAIN) (TimerWheel_ctor :: nat TimerWheel) = Inr TimerWheel_ctor \<and>
   OnTime (- 1, EINTR) (TimerWheel_ctor :: nat TimerWheel) = Inr TimerWheel_ctor \<and>
   returned (ReadEventfd (3, EAGAIN)
     \<lparr>channels = Map.empty, pending = [], world = (), loop_logged = [], history = []\<rparr>) \<and>
   loop_logged (final (ReadEventfd (0, EINTR)
     \<lparr>channels = Map.empty, pending = [], world = (), loop_logged = [], history = []\<rparr>)) = []"
  by (simp add: OnTime_def ReadEventfd_def)

section \<open>Claims about the event loop\<close>

text \<open>
  Claim C5. One iteration of \<open>Start\<close> does to \<open>world\<close> what is done by calling
  \<open>HandleEvent\<close> on every channel the poller reported, in the poller's order, and
  then every task that was pending, in queue order, stopping at the first of them that
  throws: no task acts before the last reported channel has been handled. If the poller
  throws, nothing has acted on \<open>world\<close>. On the observing loop, whatever the ready
  list \<open>evs\<close>, the callbacks installed and the number \<open>n\<close> of pending tasks, the
  iteration returns and \<open>world\<close> has received, for each entry of \<open>evs\<close> in order,
  the callbacks \<open>HandleEvent\<close> calls for its mask, and after all of them the tasks
  \<open>0\<close> to \<open>n - 1\<close>. The same order is in the history: \<open>Handled\<close> entries, then
  \<open>Ran\<close> entries; as soon as one task has run every reported channel has been
  handled, and when the iteration returns all pending tasks have run and the queue is
  empty.
\<close>

theorem Start_events_before_tasks:
  "(\<forall>active lp1. Poll r [] lp = Inr (active, lp1) \<longrightarrow>
      on_world (Start r lp) =
        and_then (in_sequence (map HandleEvent active) (world lp)) (in_sequence (pending lp))) \<and>
   (\<forall>e lp1. Poll r [] lp = Inl (e, lp1) \<longrightarrow> on_world (Start r lp) = Inl (e, world lp)) \<and>
   returned (Start (WaitReady evs) (observing installed n seen)) \<and>
   world (final (Start (WaitReady evs) (observing installed n seen))) =
     seen @ concat (map (\<lambda>(f, rv). map (Dispatched f) (calls_of (installed f) rv)) evs) @
     map Executed [0..<n] \<and>
   (\<exists>hs ts.
     history (final (Start r lp)) = history lp @ map Handled hs @ map Ran ts \<and>
     (\<forall>active lp1. Poll r [] lp = Inr (active, lp1) \<longrightarrow>
        (ts \<noteq> [] \<or> returned (Start r lp) \<longrightarrow> hs = map fd active) \<and>
        (returned (Start r lp) \<longrightarrow>
           ts = [0..<length (pending lp)] \<and> pending (final (Start r lp)) = [])))"
proof -
  have a: "\<forall>active lp1. Poll r [] lp = Inr (active, lp1) \<longrightarrow>
      on_world (Start r lp) =
        and_then (in_sequence (map HandleEvent active) (world lp)) (in_sequence (pending lp))"
    using Start_on_world by blast
  have b: "\<forall>e lp1. Poll r [] lp = Inl (e, lp1) \<longrightarrow> on_world (Start r lp) = Inl (e, world lp)"
    using Start_on_world_thrown by blast
  have c: "returned (Start (WaitReady evs) (observing installed n seen)) \<and>
     world (final (Start (WaitReady evs) (observing installed n seen))) =
     seen @ concat (map (\<lambda>(f, rv). map (Dispatched f) (calls_of (installed f) rv)) evs) @
     map Executed [0..<n]"
    using on_world_Inr [OF Start_observing] .
  show ?thesis using a b c Start_history [of r lp] by blast
qed

text \<open>
  The witness: on the observing loop, two ready channels and two pending tasks; a loop
  whose read callback doubles \<open>world\<close> and whose task increments it, from 3 (7, not
  8); the same loop with a read callback that throws (the task does not run); and a
  ready descriptor that has no channel (nothing runs).
\<close>

theorem Start_events_before_tasks_witness:
  "world (final (Start (WaitReady [(4, EPOLLIN OR EPOLLOUT), (6, EPOLLHUP)])
                  (observing (\<lambda>f k. True) 2 []))) =
     [Dispatched 4 EventCb, Dispatched 4 ReadCb, Dispatched 4 WriteCb,
      Dispatched 6 EventCb, Dispatched 6 CloseCb, Executed 0, Executed 1] \<and>
   on_world (Start (WaitReady [(4, EPOLLIN)])
        \<lparr>channels = [4 \<mapsto> (Channel_ctor 4)\<lparr>read_cb := Some (\<lambda>s. Inr (2 * s))\<rparr>],
         pending = [\<lambda>s. Inr (Suc s)], world = (3::nat), loop_logged = [], history = []\<rparr>) =
     Inr 7 \<and>
   on_world (Start (WaitReady [(4, EPOLLIN)])
        \<lparr>channels = [4 \<mapsto> (Channel_ctor 4)\<lparr>read_cb := Some (\<lambda>s. Inl (RuntimeError ''read'', 2 * s))\<rparr>],
         pending = [\<lambda>s. Inr (Suc s)], world = (3::nat), loop_logged = [], history = []\<rparr>) =
     Inl (RuntimeError ''read'', 6) \<and>
   on_world (Start (WaitReady [(5, EPOLLIN)])
        \<lparr>channels = [4 \<mapsto> Channel_ctor 4],
         pending = [\<lambda>s. Inr (Suc s)], world = (3::nat), loop_logged = [], history = []\<rparr>) =
     Inl (RuntimeError ''channel not found'', 3)"
proof -
  let ?ok = "(Channel_ctor 4)\<lparr>read_cb := Some (\<lambda>s. Inr (2 * s))\<rparr> :: nat Channel"
  let ?bad = "(Channel_ctor 4)\<lparr>read_cb := Some (\<lambda>s. Inl (RuntimeError ''read'', 2 * s))\<rparr> :: nat Channel"
  let ?lp1 = "\<lparr>channels = [4 \<mapsto> ?ok], pending = [\<lambda>s. Inr (Suc s)], world = (3::nat),
               loop_logged = [], history = []\<rparr>"
  let ?lp2 = "\<lparr>channels = [4 \<mapsto> ?bad], pending = [\<lambda>s. Inr (Suc s)], world = (3::nat),
               loop_logged = [], history = []\<rparr>"
  let ?lp3 = "\<lparr>channels = [4 \<mapsto> Channel_ctor 4 :: nat Channel], pending = [\<lambda>s. Inr (Suc s)],
               world = (3::nat), loop_logged = [], history = []\<rparr>"
  have P1: "Poll (WaitReady [(4, EPOLLIN)]) [] ?lp1 =
      Inr ([SetRevents EPOLLIN ?ok], ?lp1\<lparr>channels := [4 \<mapsto> SetRevents EPOLLIN ?ok]\<rparr>)"
    by (simp add: Poll_def)
  have P2: "Poll (WaitReady [(4, EPOLLIN)]) [] ?lp2 =
      Inr ([SetRevents EPOLLIN ?bad], ?lp2\<lparr>channels := [4 \<mapsto> SetRevents EPOLLIN ?bad]\<rparr>)"
    by (simp add: Poll_def)
  have P3: "Poll (WaitReady [(5, EPOLLIN)]) [] ?lp3 =
      Inl (RuntimeError ''channel not found'',
           ?lp3\<lparr>loop_logged := [(Error, ''channel not found'')]\<rparr>)"
    by (simp add: Poll_def)
  have c1: "calls_of (\<lambda>k. True) (EPOLLIN OR EPOLLOUT) = [EventCb, ReadCb, WriteCb]"
    "calls_of (\<lambda>k. True) EPOLLHUP = [EventCb, CloseCb]"
    by (simp_all add: calls_of_eq EPOLLIN_def EPOLLPRI_def EPOLLOUT_def EPOLLERR_def
        EPOLLHUP_def EPOLLRDHUP_def)
  have u: "[0..<2] = [0, 1::nat]" by (simp add: upt_rec)
  have "world (final (Start (WaitReady [(4, EPOLLIN OR EPOLLOUT), (6, EPOLLHUP)])
                  (observing (\<lambda>f k. True) 2 []))) =
     [] @ concat (map (\<lambda>(f, rv). map (Dispatched f) (calls_of ((\<lambda>f k. True) f) rv))
                    [(4, EPOLLIN OR EPOLLOUT), (6, EPOLLHUP)]) @ map Executed [0..<2]"
    using Start_events_before_tasks [where evs = "[(4, EPOLLIN OR EPOLLOUT), (6, EPOLLHUP)]"
        and installed = "\<lambda>f k. True" and n = 2 and seen = "[]"
        and r = "WaitReady [(4, EPOLLIN)]" and lp = ?lp1]
    by blast
  then have A: "world (final (Start (WaitReady [(4, EPOLLIN OR EPOLLOUT), (6, EPOLLHUP)])
                  (observing (\<lambda>f k. True) 2 []))) =
     [Dispatched 4 EventCb, Dispatched 4 ReadCb, Dispatched 4 WriteCb,
      Dispatched 6 EventCb, Dispatched 6 CloseCb, Executed 0, Executed 1]"
    by (simp add: c1 u)
  have B: "on_world (Start (WaitReady [(4, EPOLLIN)]) ?lp1) = Inr 7"
    using Start_events_before_tasks [where r = "WaitReady [(4, EPOLLIN)]" and lp = ?lp1
        and evs = "[]" and installed = "\<lambda>f k. True" and n = 0 and seen = "[]"] P1
    by (auto simp: HandleEvent_def SetRevents_def Channel_ctor_def invoke_def and_then_def
        EPOLLIN_def EPOLLPRI_def EPOLLOUT_def EPOLLERR_def EPOLLHUP_def EPOLLRDHUP_def)
  have C: "on_world (Start (WaitReady [(4, EPOLLIN)]) ?lp2) = Inl (RuntimeError ''read'', 6)"
    using Start_events_before_tasks [where r = "WaitReady [(4, EPOLLIN)]" and lp = ?lp2
        and evs = "[]" and installed = "\<lambda>f k. True" and n = 0 and seen = "[]"] P2
    by (auto simp: HandleEvent_def SetRevents_def Channel_ctor_def invoke_def and_then_def
        EPOLLIN_def EPOLLPRI_def EPOLLOUT_def EPOLLERR_def EPOLLHUP_def EPOLLRDHUP_def)
  have D: "on_world (Start (WaitReady [(5, EPOLLIN)]) ?lp3) =
      Inl (RuntimeError ''channel not found'', 3)"
    using Start_events_before_tasks [where r = "WaitReady [(5, EPOLLIN)]" and lp = ?lp3
        and evs = "[]" and installed = "\<lambda>f k. True" and n = 0 and seen = "[]"] P3
    by auto
  show ?thesis using A B C D by simp
qed

end
